theory Spec2Isabelle
  imports Complex_Main "HOL-Library.Sublist"
begin

section \<open>Python values used by the monitor\<close>

text \<open>
  A Python \<open>str\<close> is a sequence of Unicode code points; it is modelled as the list of
  its code points. \<open>py\<close> writes an ASCII literal as such a string.
\<close>

type_synonym pystr = "nat list"

definition py :: "string \<Rightarrow> pystr" where
  "py s = map of_char s"

text \<open>\<open>s.startswith(p)\<close> and the substring test \<open>kw in s\<close> of Python strings.\<close>

fun starts_with :: "'a list \<Rightarrow> 'a list \<Rightarrow> bool" where
  "starts_with s [] = True"
| "starts_with [] (p # ps) = False"
| "starts_with (c # cs) (p # ps) = (c = p \<and> starts_with cs ps)"

fun str_in :: "'a list \<Rightarrow> 'a list \<Rightarrow> bool" where
  "str_in kw [] = (kw = [])"
| "str_in kw (c # cs) = (starts_with (c # cs) kw \<or> str_in kw cs)"

text \<open>
  A Python \<open>set\<close> is modelled as the list of its elements without repetition, in the order
  they were inserted. \<open>set_add\<close> is \<open>s.add(x)\<close>, \<open>set_update\<close> is \<open>s.update(xs)\<close>, \<open>py_set\<close> is
  \<open>set(xs)\<close>. The order in which \<open>list(s)\<close> enumerates a set is not fixed by the language (it is
  the order of the hash table); it is a parameter \<open>iter\<close> of the model, and \<open>set_iteration iter\<close>
  says that \<open>iter\<close> enumerates every set completely and without repetition.
\<close>

definition set_add :: "'a \<Rightarrow> 'a list \<Rightarrow> 'a list" where
  "set_add x s = (if x \<in> set s then s else s @ [x])"

definition set_update :: "'a list \<Rightarrow> 'a list \<Rightarrow> 'a list" where
  "set_update s xs = fold set_add xs s"

definition py_set :: "'a list \<Rightarrow> 'a list" where
  "py_set xs = set_update [] xs"

definition set_iteration :: "('a list \<Rightarrow> 'a list) \<Rightarrow> bool" where
  "set_iteration iter = (\<forall>s. distinct s \<longrightarrow> distinct (iter s) \<and> set (iter s) = set s)"

text \<open>The slice \<open>xs[-n:]\<close> for a positive \<open>n\<close>: the last \<open>n\<close> elements, or all of a shorter list.\<close>

definition slice_last :: "nat \<Rightarrow> 'a list \<Rightarrow> 'a list" where
  "slice_last n xs = drop (length xs - n) xs"

text \<open>
  A \<open>datetime\<close> has microsecond resolution and is modelled as the integer number of
  microseconds since the epoch; the monitor's \<open>time.time()\<close> is read on the same scale.
  \<open>(a - b).total_seconds()\<close> is the difference divided by one million, as a float; the
  model compares the exact quotient, so that \<open>(a - b).total_seconds() < c\<close> for an integer
  number \<open>c\<close> of seconds is \<open>a - b < c * 1000000\<close>.
\<close>

type_synonym datetime = int

definition usec :: "int \<Rightarrow> int" where
  "usec seconds = seconds * 1000000"


section \<open>The notification system (notification_system.py)\<close>

datatype NotificationPriority = CRITICAL | HIGH | NORMAL | LOW | IGNORE

record NotificationMessage =
  title :: pystr
  content :: pystr
  priority :: NotificationPriority
  keyword :: pystr
  source :: pystr
  timestamp :: datetime

record NotificationRule =
  rule_name :: pystr
  rule_keywords :: "pystr list"
  channels :: "pystr list"
  rule_priority :: NotificationPriority
  cooldown :: int
  rule_enabled :: bool

text \<open>
  A channel is a sink with an \<open>is_available\<close> predicate and a \<open>send\<close> operation. What \<open>send\<close>
  does is the channel's own business; under \<open>asyncio.wait_for\<close> it returns a boolean, runs into
  the timeout, or raises.
\<close>

datatype send_outcome = Returned bool | TimedOut | Raised

record NotificationChannel =
  ch_available :: bool
  ch_send :: "NotificationMessage \<Rightarrow> send_outcome"

text \<open>
  The state of a \<open>NotificationSystem\<close>: the \<open>enabled\<close> flag, the \<open>default_channels\<close> entry of
  the configuration (absent or a list), the channels by name, the rules in configuration
  order, and the cooldown ledger \<open>_cooldown_records\<close>.
\<close>

record NotificationSystem =
  sys_enabled :: bool
  default_channels :: "pystr list option"
  sys_channels :: "pystr \<rightharpoonup> NotificationChannel"
  rules :: "NotificationRule list"
  cooldown_records :: "pystr \<rightharpoonup> datetime"

text \<open>
  \<open>_check_cooldown(key, cooldown)\<close>; \<open>now\<close> is the value \<open>datetime.now()\<close> returns inside it.
  It answers whether the notification may be sent, and records \<open>now\<close> when it may and the
  cooldown is positive.
\<close>

definition check_cooldown ::
  "datetime \<Rightarrow> NotificationSystem \<Rightarrow> pystr \<Rightarrow> int \<Rightarrow> bool \<times> NotificationSystem" where
  "check_cooldown now sys key cd =
     (if cd \<le> 0 then (True, sys)
      else
        (case cooldown_records sys key of
           Some last_time \<Rightarrow>
             if now - last_time < usec cd then (False, sys)
             else (True, sys\<lparr>cooldown_records := (cooldown_records sys)(key \<mapsto> now)\<rparr>)
         | None \<Rightarrow> (True, sys\<lparr>cooldown_records := (cooldown_records sys)(key \<mapsto> now)\<rparr>)))"

text \<open>\<open>any(kw in message.keyword for kw in rule.keywords)\<close>.\<close>

fun any_kw_in :: "pystr list \<Rightarrow> pystr \<Rightarrow> bool" where
  "any_kw_in [] message_keyword = False"
| "any_kw_in (kw # kws) message_keyword =
     (str_in kw message_keyword \<or> any_kw_in kws message_keyword)"

text \<open>\<open>_match_rules\<close>: the loop over \<open>self.rules\<close>, appending to \<open>matched_rules\<close>.\<close>

fun match_rules_loop ::
  "NotificationRule list \<Rightarrow> NotificationMessage \<Rightarrow> NotificationRule list \<Rightarrow> NotificationRule list" where
  "match_rules_loop [] message matched_rules = matched_rules"
| "match_rules_loop (rule # rest) message matched_rules =
     (if \<not> rule_enabled rule then match_rules_loop rest message matched_rules
      else if any_kw_in (rule_keywords rule) (keyword message)
        then match_rules_loop rest message (matched_rules @ [rule])
        else match_rules_loop rest message matched_rules)"

definition match_rules :: "NotificationSystem \<Rightarrow> NotificationMessage \<Rightarrow> NotificationRule list" where
  "match_rules sys message = match_rules_loop (rules sys) message []"

text \<open>
  The first half of \<open>notify\<close>: the channels to notify and the cooldown. With no matched rule
  it is the configured default list (\<open>["console", "file"]\<close> when the configuration has none)
  and cooldown 0; otherwise the set union of the matched rules' channels, as a list, and the
  minimum of their cooldowns.
\<close>

definition resolve_targets ::
  "(pystr list \<Rightarrow> pystr list) \<Rightarrow> NotificationSystem \<Rightarrow> NotificationMessage \<Rightarrow> pystr list \<times> int" where
  "resolve_targets iter sys message =
     (case match_rules sys message of
        [] \<Rightarrow>
          ((case default_channels sys of
              None \<Rightarrow> [py ''console'', py ''file'']
            | Some cs \<Rightarrow> cs), 0)
      | rule # rest \<Rightarrow>
          (iter (fold (\<lambda>r s. set_update s (channels r)) (rule # rest) []),
           fold (\<lambda>r m. min m (cooldown r)) rest (cooldown rule)))"

text \<open>\<open>f"{message.keyword}:{message.source}"\<close>; 58 is the colon.\<close>

definition cooldown_key :: "NotificationMessage \<Rightarrow> pystr" where
  "cooldown_key message = keyword message @ [58] @ source message"

text \<open>
  \<open>_send_with_timeout\<close>: a timeout is turned into \<open>False\<close>, any other exception of \<open>send\<close>
  propagates (\<open>Inl\<close>) to \<open>notify\<close>, which turns it into \<open>False\<close> as well.
\<close>

definition send_with_timeout :: "NotificationChannel \<Rightarrow> NotificationMessage \<Rightarrow> unit + bool" where
  "send_with_timeout channel message =
     (case ch_send channel message of
        Returned b \<Rightarrow> Inr b
      | TimedOut \<Rightarrow> Inr False
      | Raised \<Rightarrow> Inl ())"

text \<open>
  The first loop of the dispatch: a task for every channel that is configured and available,
  \<open>results[channel_name] = False\<close> for the others.
\<close>

fun build_tasks ::
  "(pystr \<rightharpoonup> NotificationChannel) \<Rightarrow> pystr list \<Rightarrow> (pystr \<rightharpoonup> bool) \<Rightarrow>
   (pystr \<times> NotificationChannel) list \<Rightarrow> (pystr \<rightharpoonup> bool) \<times> (pystr \<times> NotificationChannel) list" where
  "build_tasks chans [] results tasks = (results, tasks)"
| "build_tasks chans (channel_name # rest) results tasks =
     (case chans channel_name of
        Some channel \<Rightarrow>
          if ch_available channel
          then build_tasks chans rest results (tasks @ [(channel_name, channel)])
          else build_tasks chans rest (results(channel_name \<mapsto> False)) tasks
      | None \<Rightarrow> build_tasks chans rest (results(channel_name \<mapsto> False)) tasks)"

text \<open>
  The second loop: every task is awaited, which is when the channel's \<open>send\<close> runs; \<open>sent\<close>
  lists the channels whose \<open>send\<close> was invoked, one entry per invocation.
\<close>

fun run_tasks ::
  "NotificationMessage \<Rightarrow> (pystr \<times> NotificationChannel) list \<Rightarrow> (pystr \<rightharpoonup> bool) \<Rightarrow> pystr list \<Rightarrow>
   (pystr \<rightharpoonup> bool) \<times> pystr list" where
  "run_tasks message [] results sent = (results, sent)"
| "run_tasks message ((channel_name, channel) # rest) results sent =
     (case send_with_timeout channel message of
        Inr result \<Rightarrow> run_tasks message rest (results(channel_name \<mapsto> result)) (sent @ [channel_name])
      | Inl e \<Rightarrow> run_tasks message rest (results(channel_name \<mapsto> False)) (sent @ [channel_name]))"

text \<open>
  \<open>notify\<close>. The result is the returned dictionary, the list of channels whose \<open>send\<close> was
  invoked, and the system afterwards. \<open>now\<close> is the clock read by the cooldown check.
\<close>

definition notify ::
  "(pystr list \<Rightarrow> pystr list) \<Rightarrow> datetime \<Rightarrow> NotificationSystem \<Rightarrow> NotificationMessage \<Rightarrow>
   (pystr \<rightharpoonup> bool) \<times> pystr list \<times> NotificationSystem" where
  "notify iter now sys message =
     (if \<not> sys_enabled sys then (Map.empty, [], sys)
      else
        (case resolve_targets iter sys message of
           (channels_to_notify, cd) \<Rightarrow>
             (case check_cooldown now sys (cooldown_key message) cd of
                (False, sys') \<Rightarrow> (Map.empty, [], sys')
              | (True, sys') \<Rightarrow>
                  (case build_tasks (sys_channels sys') channels_to_notify Map.empty [] of
                     (results, tasks) \<Rightarrow>
                       (case run_tasks message tasks results [] of
                          (results', sent) \<Rightarrow> (results', sent, sys'))))))"

text \<open>A sequence of \<open>notify\<close> calls, each at its own clock reading.\<close>

fun notify_all ::
  "(pystr list \<Rightarrow> pystr list) \<Rightarrow> NotificationSystem \<Rightarrow> (datetime \<times> NotificationMessage) list \<Rightarrow>
   NotificationSystem" where
  "notify_all iter sys [] = sys"
| "notify_all iter sys ((now, message) # rest) =
     notify_all iter (snd (snd (notify iter now sys message))) rest"


text \<open>
  Three notions used to state what \<open>notify\<close> does: a channel name is usable when a channel
  of that name is configured and available (the condition \<open>channel and channel.is_available()\<close>);
  \<open>send_result\<close> is the value \<open>notify\<close> stores for a channel it sent to (the value \<open>send\<close>
  returned, \<open>False\<close> on a timeout or an exception); \<open>default_targets\<close> is the configured
  default channel list.
\<close>

definition channel_usable :: "(pystr \<rightharpoonup> NotificationChannel) \<Rightarrow> pystr \<Rightarrow> bool" where
  "channel_usable chans n = (case chans n of Some ch \<Rightarrow> ch_available ch | None \<Rightarrow> False)"

definition send_result :: "NotificationChannel \<Rightarrow> NotificationMessage \<Rightarrow> bool" where
  "send_result ch m = (case send_with_timeout ch m of Inr b \<Rightarrow> b | Inl e \<Rightarrow> False)"

definition default_targets :: "NotificationSystem \<Rightarrow> pystr list" where
  "default_targets sys =
     (case default_channels sys of None \<Rightarrow> [py ''console'', py ''file''] | Some cs \<Rightarrow> cs)"

section \<open>Message sources (core/message.py, sources/base.py)\<close>

record ChatMessage =
  msg_id :: pystr
  msg_platform :: pystr
  msg_channel :: pystr
  msg_content :: pystr
  msg_timestamp :: datetime
  msg_sender :: pystr
  processed :: bool
  matched_keywords :: "pystr list"

text \<open>
  The state every source inherits from \<open>BaseMessageSource\<close>. \<open>seen_message_ids\<close> is the
  set \<open>_seen_message_ids\<close>.
\<close>

record BaseMessageSource =
  src_name :: pystr
  src_platform :: pystr
  src_enabled :: bool
  poll_interval :: int
  last_poll_time :: "datetime option"
  last_error :: "pystr option"
  message_count :: int
  error_count :: int
  seen_message_ids :: "pystr list"

text \<open>
  \<open>is_available\<close>: a disabled source is not available, and neither is a source with an error
  on record whose last poll is less than five minutes ago. \<open>self._last_error and
  self._last_poll_time\<close> holds when the error is a non-empty string and the time is set.
\<close>

definition is_available :: "datetime \<Rightarrow> BaseMessageSource \<Rightarrow> bool" where
  "is_available now src =
     (if \<not> src_enabled src then False
      else
        (case (last_error src, last_poll_time src) of
           (Some err, Some polled) \<Rightarrow>
             if err \<noteq> [] \<and> now - polled < usec (5 * 60) then False else True
         | _ \<Rightarrow> True))"

text \<open>
  \<open>_update_poll_status(success, error_msg)\<close>; \<open>error_msg or "Unknown error"\<close> replaces a
  missing or empty message.
\<close>

definition update_poll_status ::
  "datetime \<Rightarrow> BaseMessageSource \<Rightarrow> bool \<Rightarrow> pystr option \<Rightarrow> BaseMessageSource" where
  "update_poll_status now src success error_msg =
     (if success then src\<lparr>last_poll_time := Some now, last_error := None\<rparr>
      else src\<lparr>last_poll_time := Some now,
               error_count := error_count src + 1,
               last_error := Some (case error_msg of
                                     None \<Rightarrow> py ''Unknown error''
                                   | Some e \<Rightarrow> if e = [] then py ''Unknown error'' else e)\<rparr>)"

text \<open>
  \<open>_deduplicate_messages\<close>: the loop over the batch, with the set of seen identities and the
  list \<open>new_messages\<close> as its state. After an identity is added, a set of more than 10000
  entries is replaced by \<open>set(list(seen)[-8000:])\<close>, where \<open>list(seen)\<close> enumerates the set in
  the order \<open>iter\<close>.
\<close>

fun deduplicate_loop ::
  "(pystr list \<Rightarrow> pystr list) \<Rightarrow> pystr list \<Rightarrow> ChatMessage list \<Rightarrow> ChatMessage list \<Rightarrow>
   ChatMessage list \<times> pystr list" where
  "deduplicate_loop iter seen new_messages [] = (new_messages, seen)"
| "deduplicate_loop iter seen new_messages (msg # rest) =
     (if msg_id msg \<notin> set seen then
        (let seen1 = set_add (msg_id msg) seen;
             new1 = new_messages @ [msg];
             seen2 = (if length seen1 > 10000 then py_set (slice_last 8000 (iter seen1)) else seen1)
         in deduplicate_loop iter seen2 new1 rest)
      else deduplicate_loop iter seen new_messages rest)"

definition deduplicate_messages ::
  "(pystr list \<Rightarrow> pystr list) \<Rightarrow> BaseMessageSource \<Rightarrow> ChatMessage list \<Rightarrow>
   ChatMessage list \<times> BaseMessageSource" where
  "deduplicate_messages iter src messages =
     (case deduplicate_loop iter (seen_message_ids src) [] messages of
        (new_messages, seen) \<Rightarrow> (new_messages, src\<lparr>seen_message_ids := seen\<rparr>))"




text \<open>
  The step \<open>_deduplicate_messages\<close> takes after adding an identity: the set as it is, or,
  when it has more than 10000 entries, the set of the last 8000 entries of its enumeration.
\<close>

definition trim_seen :: "(pystr list \<Rightarrow> pystr list) \<Rightarrow> pystr list \<Rightarrow> pystr list" where
  "trim_seen iter seen1 = (if length seen1 > 10000 then py_set (slice_last 8000 (iter seen1)) else seen1)"


section \<open>Keyword filters (monitor.py, monitor_v2.py)\<close>

text \<open>
  Two library functions are parameters of the model: \<open>lower\<close> is \<open>str.lower\<close>, and \<open>ratio\<close> is
  \<open>difflib.SequenceMatcher(None, a, b).ratio()\<close>.
\<close>

datatype match_mode = Contain | Exact | Fuzzy | OtherMode pystr

text \<open>
  The \<open>KeywordFilter\<close> of monitor.py. \<open>match_mode\<close> is a string compared with \<open>"contain"\<close>,
  \<open>"exact"\<close> and \<open>"fuzzy"\<close>; \<open>OtherMode\<close> stands for every other string.
\<close>

record KeywordFilter =
  kf_keywords :: "pystr list"
  kf_match_mode :: match_mode
  kf_case_sensitive :: bool
  kf_fuzzy_threshold :: real

definition fuzzy_match ::
  "(pystr \<Rightarrow> pystr) \<Rightarrow> (pystr \<Rightarrow> pystr \<Rightarrow> real) \<Rightarrow> KeywordFilter \<Rightarrow> pystr \<Rightarrow> pystr \<Rightarrow> real" where
  "fuzzy_match lower ratio f text kw =
     (if \<not> kf_case_sensitive f then ratio (lower text) (lower kw) else ratio text kw)"

text \<open>
  The table of characters that text recognition confuses, in the order of the dictionary
  \<open>ocr_error_map\<close>: each pair is a misread character and the character it stands for.
\<close>

definition ocr_error_map :: "(nat \<times> nat) list" where
  "ocr_error_map =
     [(27445, 27454), (21567, 21578), (35380, 35785), (21336, 21333), (25204, 25171),
      (21454, 25910), (30330, 21457), (36008, 36135), (20385, 20215), (25201, 25237)]"

text \<open>\<open>s.replace(a, b)\<close> for single characters \<open>a\<close> and \<open>b\<close>, and \<open>s.replace(a, "")\<close>.\<close>

definition replace_char :: "nat \<Rightarrow> nat \<Rightarrow> pystr \<Rightarrow> pystr" where
  "replace_char a b s = map (\<lambda>c. if c = a then b else c) s"

definition remove_char :: "nat \<Rightarrow> pystr \<Rightarrow> pystr" where
  "remove_char a s = filter (\<lambda>c. c \<noteq> a) s"

text \<open>\<open>_ocr_error_match\<close>; 32 is the space, 10 the newline.\<close>

definition ocr_error_match ::
  "(pystr \<Rightarrow> pystr) \<Rightarrow> KeywordFilter \<Rightarrow> pystr \<Rightarrow> pystr \<Rightarrow> bool" where
  "ocr_error_match lower f text0 keyword0 =
     (let text = (if \<not> kf_case_sensitive f then lower text0 else text0);
          kw = (if \<not> kf_case_sensitive f then lower keyword0 else keyword0);
          text_no_space = remove_char 10 (remove_char 32 text);
          keyword_no_space = remove_char 10 (remove_char 32 kw)
      in if str_in keyword_no_space text_no_space then True
         else
           (let corrected_text = fold (\<lambda>(error_char, correct_char). replace_char error_char correct_char)
                                   ocr_error_map text_no_space
            in if str_in keyword_no_space corrected_text then True else False))"

text \<open>
  \<open>KeywordFilter.check\<close> of monitor.py: the loop over the keywords, which returns at the first
  keyword one of whose tests succeeds. \<open>text\<close> is the argument, \<open>check_text\<close> its case-folded
  form.
\<close>

fun check_loop ::
  "(pystr \<Rightarrow> pystr) \<Rightarrow> (pystr \<Rightarrow> pystr \<Rightarrow> real) \<Rightarrow> KeywordFilter \<Rightarrow> pystr \<Rightarrow> pystr \<Rightarrow>
   pystr list \<Rightarrow> pystr option" where
  "check_loop lower ratio f text check_text [] = None"
| "check_loop lower ratio f text check_text (kw # rest) =
     (let check_keyword = (if kf_case_sensitive f then kw else lower kw)
      in case kf_match_mode f of
           Contain \<Rightarrow>
             if str_in check_keyword check_text then Some kw
             else if ocr_error_match lower f text kw then Some kw
             else check_loop lower ratio f text check_text rest
         | Exact \<Rightarrow>
             if check_keyword = check_text then Some kw
             else check_loop lower ratio f text check_text rest
         | Fuzzy \<Rightarrow>
             if fuzzy_match lower ratio f text kw \<ge> kf_fuzzy_threshold f then Some kw
             else if str_in check_keyword check_text then Some kw
             else check_loop lower ratio f text check_text rest
         | OtherMode s \<Rightarrow> check_loop lower ratio f text check_text rest)"

text \<open>The argument of \<open>check\<close> is a string or \<open>None\<close>; \<open>not text\<close> holds for \<open>None\<close> and \<open>""\<close>.\<close>

definition check ::
  "(pystr \<Rightarrow> pystr) \<Rightarrow> (pystr \<Rightarrow> pystr \<Rightarrow> real) \<Rightarrow> KeywordFilter \<Rightarrow> pystr option \<Rightarrow> pystr option" where
  "check lower ratio f text_arg =
     (case text_arg of
        None \<Rightarrow> None
      | Some text \<Rightarrow>
          if text = [] then None
          else check_loop lower ratio f text
                 (if kf_case_sensitive f then text else lower text) (kf_keywords f))"

text \<open>
  The \<open>KeywordFilter\<close> of monitor_v2.py: the constructor stores the keywords, lower-cased
  unless the filter is case sensitive, and \<open>check\<close> returns the first stored keyword that is
  a substring of the (case-folded) text.
\<close>

record KeywordFilter_v2 =
  v2_keywords :: "pystr list"
  v2_case_sensitive :: bool

definition KeywordFilter_v2_init :: "(pystr \<Rightarrow> pystr) \<Rightarrow> pystr list \<Rightarrow> bool \<Rightarrow> KeywordFilter_v2" where
  "KeywordFilter_v2_init lower kws case_sensitive =
     \<lparr>v2_keywords = (if \<not> case_sensitive then map lower kws else kws),
      v2_case_sensitive = case_sensitive\<rparr>"

fun check_v2_loop :: "pystr \<Rightarrow> pystr list \<Rightarrow> pystr option" where
  "check_v2_loop check_text [] = None"
| "check_v2_loop check_text (kw # rest) =
     (if str_in kw check_text then Some kw else check_v2_loop check_text rest)"

definition check_v2 :: "(pystr \<Rightarrow> pystr) \<Rightarrow> KeywordFilter_v2 \<Rightarrow> pystr option \<Rightarrow> pystr option" where
  "check_v2 lower f text_arg =
     (case text_arg of
        None \<Rightarrow> None
      | Some text \<Rightarrow>
          if text = [] then None
          else check_v2_loop (if v2_case_sensitive f then text else lower text) (v2_keywords f))"

text \<open>
  The per-keyword test of each filter, read off the branches of the loop: what it means
  that a keyword matches the text.
\<close>

definition keyword_matches ::
  "(pystr \<Rightarrow> pystr) \<Rightarrow> (pystr \<Rightarrow> pystr \<Rightarrow> real) \<Rightarrow> KeywordFilter \<Rightarrow> pystr \<Rightarrow> pystr \<Rightarrow> bool" where
  "keyword_matches lower ratio f text kw =
     (let check_text = (if kf_case_sensitive f then text else lower text);
          check_keyword = (if kf_case_sensitive f then kw else lower kw)
      in case kf_match_mode f of
           Contain \<Rightarrow> str_in check_keyword check_text \<or> ocr_error_match lower f text kw
         | Exact \<Rightarrow> check_keyword = check_text
         | Fuzzy \<Rightarrow> fuzzy_match lower ratio f text kw \<ge> kf_fuzzy_threshold f \<or>
                    str_in check_keyword check_text
         | OtherMode s \<Rightarrow> False)"

text \<open>ASCII lower-casing, which is what \<open>str.lower\<close> does on ASCII strings.\<close>

definition ascii_lower :: "pystr \<Rightarrow> pystr" where
  "ascii_lower s = map (\<lambda>c. if 65 \<le> c \<and> c \<le> 90 then c + 32 else c) s"


section \<open>The multi-source monitor (monitor_v2.py)\<close>











section \<open>A concrete configuration\<close>

text \<open>
  A notification system with three rules and three channels, used to run the model on
  concrete inputs: refunds go to the console with a cooldown of 300 seconds, urgent matters
  (complaints and refunds) to the file and the console with a cooldown of 60 seconds, late
  deliveries to e-mail, whose channel is configured but not available.
\<close>

definition console_channel :: NotificationChannel where
  "console_channel = \<lparr>ch_available = True, ch_send = (\<lambda>m. Returned True)\<rparr>"

definition broken_channel :: NotificationChannel where
  "broken_channel = \<lparr>ch_available = False, ch_send = (\<lambda>m. Raised)\<rparr>"

definition refund_rule :: NotificationRule where
  "refund_rule =
     \<lparr>rule_name = py ''refunds'', rule_keywords = [py ''refund''], channels = [py ''console''],
      rule_priority = NORMAL, cooldown = 300, rule_enabled = True\<rparr>"

definition urgent_rule :: NotificationRule where
  "urgent_rule =
     \<lparr>rule_name = py ''urgent'', rule_keywords = [py ''complaint'', py ''refund''],
      channels = [py ''file'', py ''console''],
      rule_priority = HIGH, cooldown = 60, rule_enabled = True\<rparr>"

definition logistics_rule :: NotificationRule where
  "logistics_rule =
     \<lparr>rule_name = py ''logistics'', rule_keywords = [py ''late delivery''], channels = [py ''email''],
      rule_priority = LOW, cooldown = 10, rule_enabled = True\<rparr>"

definition example_system :: NotificationSystem where
  "example_system =
     \<lparr>sys_enabled = True,
      default_channels = Some [py ''console'', py ''file''],
      sys_channels = [py ''console'' \<mapsto> console_channel, py ''file'' \<mapsto> console_channel,
                      py ''email'' \<mapsto> broken_channel],
      rules = [refund_rule, urgent_rule, logistics_rule],
      cooldown_records = Map.empty\<rparr>"

text \<open>
  A notification for the keyword \<open>kw\<close> from the conversation \<open>chat\<close>, created at time \<open>t\<close>
  (the \<open>timestamp\<close> field is filled with the clock at construction).
\<close>

definition example_message :: "pystr \<Rightarrow> datetime \<Rightarrow> NotificationMessage" where
  "example_message kw t =
     \<lparr>title = py ''keyword match'', content = py ''please refund my order'', priority = NORMAL,
      keyword = kw, source = py ''chat'', timestamp = t\<rparr>"

text \<open>
  Messages and sources to run the deduplication on: the message number \<open>n\<close> has the identity
  made of the letter m and the character with code point \<open>n\<close>; \<open>fresh_source\<close> has seen
  nothing, \<open>full_source\<close> has seen the messages 0 to 9999, in this order.
\<close>

definition numbered_id :: "nat \<Rightarrow> pystr" where
  "numbered_id n = [109, n]"

definition numbered_message :: "nat \<Rightarrow> ChatMessage" where
  "numbered_message n =
     \<lparr>msg_id = numbered_id n, msg_platform = py ''wechat_win'', msg_channel = py ''chat'',
      msg_content = py ''I want a refund'', msg_timestamp = 0, msg_sender = py ''customer'',
      processed = False, matched_keywords = []\<rparr>"

definition fresh_source :: BaseMessageSource where
  "fresh_source =
     \<lparr>src_name = py ''wechat'', src_platform = py ''wechat_win'', src_enabled = True,
      poll_interval = 5, last_poll_time = None, last_error = None, message_count = 0,
      error_count = 0, seen_message_ids = []\<rparr>"

definition full_source :: BaseMessageSource where
  "full_source = fresh_source\<lparr>seen_message_ids := map numbered_id [0..<10000]\<rparr>"



text \<open>
  A filter of monitor.py with four keywords, the last one the two characters 36864, 27454
  (a refund, in Chinese), and a monitor whose database is the number of \<open>insert_message\<close>
  calls so far and whose first \<open>insert_message\<close> raises.
\<close>

definition refund_filter :: KeywordFilter where
  "refund_filter =
     \<lparr>kf_keywords = [py ''complaint'', py ''Refund'', py ''fund'', [36864, 27454]],
      kf_match_mode = Contain, kf_case_sensitive = False, kf_fuzzy_threshold = 0.7\<rparr>"



section \<open>Strings and sets: basic facts\<close>

lemma starts_with_iff: "starts_with s p \<longleftrightarrow> (\<exists>q. s = p @ q)"
  by (induction s p rule: starts_with.induct) auto

lemma str_in_iff: "str_in kw s \<longleftrightarrow> (\<exists>p q. s = p @ kw @ q)"
proof (induction s)
  case Nil
  then show ?case by auto
next
  case (Cons c cs)
  show ?case
  proof
    assume "str_in kw (c # cs)"
    then consider "starts_with (c # cs) kw" | "str_in kw cs" by auto
    then show "\<exists>p q. c # cs = p @ kw @ q"
    proof cases
      case 1
      then obtain q where "c # cs = kw @ q" by (auto simp: starts_with_iff)
      then have "c # cs = [] @ kw @ q" by simp
      then show ?thesis by blast
    next
      case 2
      then obtain p q where "cs = p @ kw @ q" using Cons.IH by auto
      then have "c # cs = (c # p) @ kw @ q" by simp
      then show ?thesis by blast
    qed
  next
    assume "\<exists>p q. c # cs = p @ kw @ q"
    then obtain p q where pq: "c # cs = p @ kw @ q" by auto
    show "str_in kw (c # cs)"
    proof (cases p)
      case Nil
      then have "starts_with (c # cs) kw" using pq by (auto simp: starts_with_iff)
      then show ?thesis by simp
    next
      case (Cons a p')
      then have "cs = p' @ kw @ q" using pq by simp
      then have "str_in kw cs" using Cons.IH by auto
      then show ?thesis by simp
    qed
  qed
qed

lemma set_set_add: "set (set_add x s) = insert x (set s)"
  by (auto simp: set_add_def)

lemma distinct_set_add: "distinct s \<Longrightarrow> distinct (set_add x s)"
  by (auto simp: set_add_def)

lemma set_set_update: "set (set_update s xs) = set s \<union> set xs"
  unfolding set_update_def by (induction xs arbitrary: s) (auto simp: set_set_add)

lemma distinct_set_update: "distinct s \<Longrightarrow> distinct (set_update s xs)"
  unfolding set_update_def by (induction xs arbitrary: s) (auto simp: distinct_set_add)

lemma set_iteration_id: "set_iteration (\<lambda>s. s)"
  by (simp add: set_iteration_def)

lemma set_iteration_rev: "set_iteration rev"
  by (simp add: set_iteration_def)

section \<open>The notification system: lemmas\<close>

lemma any_kw_in_iff: "any_kw_in kws mk \<longleftrightarrow> (\<exists>kw\<in>set kws. str_in kw mk)"
  by (induction kws) auto

lemma match_rules_loop_filter:
  "match_rules_loop rs m acc =
     acc @ filter (\<lambda>r. rule_enabled r \<and> any_kw_in (rule_keywords r) (keyword m)) rs"
  by (induction rs arbitrary: acc) auto

lemma match_rules_filter:
  "match_rules sys m =
     filter (\<lambda>r. rule_enabled r \<and> any_kw_in (rule_keywords r) (keyword m)) (rules sys)"
  by (simp add: match_rules_def match_rules_loop_filter)

lemma fold_update_set:
  "set (fold (\<lambda>r s. set_update s (channels r)) rs s0) = set s0 \<union> (\<Union>r\<in>set rs. set (channels r))"
  by (induction rs arbitrary: s0) (auto simp: set_set_update)

lemma fold_update_distinct:
  "distinct s0 \<Longrightarrow> distinct (fold (\<lambda>r s. set_update s (channels r)) rs s0)"
  by (induction rs arbitrary: s0) (auto simp: distinct_set_update)

lemma fold_min_cooldown:
  "fold (\<lambda>r m. min m (cooldown r)) rest c = Min (insert c (cooldown ` set rest))"
proof (induction rest arbitrary: c)
  case Nil
  then show ?case by simp
next
  case (Cons r rest)
  have "Min (insert (min c (cooldown r)) (cooldown ` set rest)) =
        Min (insert c (insert (cooldown r) (cooldown ` set rest)))"
    by (cases "set rest = {}") (auto simp: min.assoc)
  then show ?case using Cons.IH[of "min c (cooldown r)"] by simp
qed

lemma build_tasks_snd:
  "snd (build_tasks chans ns res ts) =
     ts @ map (\<lambda>n. (n, the (chans n))) (filter (channel_usable chans) ns)"
  by (induction ns arbitrary: res ts) (auto simp: channel_usable_def split: option.splits)

lemma build_tasks_fst:
  "fst (build_tasks chans ns res ts) =
     (\<lambda>n. if n \<in> set ns \<and> \<not> channel_usable chans n then Some False else res n)"
  by (induction ns arbitrary: res ts) (auto simp: channel_usable_def fun_eq_iff split: option.splits)

lemma run_tasks_snd: "snd (run_tasks m ts res sent) = sent @ map fst ts"
  by (induction ts arbitrary: res sent) (auto split: sum.splits)

lemma run_tasks_dom: "dom (fst (run_tasks m ts res sent)) = dom res \<union> fst ` set ts"
proof (induction ts arbitrary: res sent)
  case Nil
  then show ?case by simp
next
  case (Cons t ts)
  obtain n ch where t: "t = (n, ch)" by (cases t)
  define b where "b = (case send_with_timeout ch m of Inr r \<Rightarrow> r | Inl e \<Rightarrow> False)"
  have step: "run_tasks m (t # ts) res sent = run_tasks m ts (res(n \<mapsto> b)) (sent @ [n])"
    unfolding t b_def by (simp split: sum.splits)
  have "dom (fst (run_tasks m ts (res(n \<mapsto> b)) (sent @ [n]))) = dom (res(n \<mapsto> b)) \<union> fst ` set ts"
    by (rule Cons.IH)
  then have "dom (fst (run_tasks m (t # ts) res sent)) = dom (res(n \<mapsto> b)) \<union> fst ` set ts"
    by (simp only: step)
  then show ?case by (simp add: t)
qed

lemma check_cooldown_state:
  "snd (check_cooldown now sys key cd) =
     (if fst (check_cooldown now sys key cd) \<and> 0 < cd
      then sys\<lparr>cooldown_records := (cooldown_records sys)(key \<mapsto> now)\<rparr> else sys)"
  by (simp add: check_cooldown_def split: option.splits)

lemma check_cooldown_allows:
  "fst (check_cooldown now sys key cd) \<longleftrightarrow>
     cd \<le> 0 \<or> (case cooldown_records sys key of None \<Rightarrow> True | Some last_time \<Rightarrow> usec cd \<le> now - last_time)"
  by (auto simp: check_cooldown_def split: option.splits)

lemma resolve_targets_none:
  "match_rules sys m = [] \<Longrightarrow>
     resolve_targets iter sys m =
       ((case default_channels sys of None \<Rightarrow> [py ''console'', py ''file''] | Some cs \<Rightarrow> cs), 0)"
  by (simp add: resolve_targets_def)

lemma resolve_targets_some:
  assumes "match_rules sys m \<noteq> []"
  shows "fst (resolve_targets iter sys m) =
           iter (fold (\<lambda>r s. set_update s (channels r)) (match_rules sys m) [])"
    and "snd (resolve_targets iter sys m) = Min (cooldown ` set (match_rules sys m))"
proof -
  obtain r rest where eq: "match_rules sys m = r # rest"
    using assms by (cases "match_rules sys m") auto
  show "fst (resolve_targets iter sys m) =
           iter (fold (\<lambda>r s. set_update s (channels r)) (match_rules sys m) [])"
    by (simp add: resolve_targets_def eq)
  show "snd (resolve_targets iter sys m) = Min (cooldown ` set (match_rules sys m))"
    by (simp add: resolve_targets_def eq fold_min_cooldown)
qed

lemma notify_disabled: "\<not> sys_enabled sys \<Longrightarrow> notify iter now sys m = (Map.empty, [], sys)"
  by (simp add: notify_def)

lemma notify_dropped:
  assumes "sys_enabled sys"
    and "\<not> fst (check_cooldown now sys (cooldown_key m) (snd (resolve_targets iter sys m)))"
  shows "notify iter now sys m = (Map.empty, [], sys)"
proof -
  obtain chs cd where rt: "resolve_targets iter sys m = (chs, cd)" by (cases "resolve_targets iter sys m")
  obtain ok sys' where cc: "check_cooldown now sys (cooldown_key m) cd = (ok, sys')"
    by (cases "check_cooldown now sys (cooldown_key m) cd")
  have "\<not> ok" using assms(2) rt cc by simp
  moreover have "sys' = sys" using check_cooldown_state[of now sys "cooldown_key m" cd] cc \<open>\<not> ok\<close> by simp
  ultimately show ?thesis using assms(1) by (simp add: notify_def rt cc)
qed

lemma notify_dispatched:
  assumes "sys_enabled sys"
    and "fst (check_cooldown now sys (cooldown_key m) (snd (resolve_targets iter sys m)))"
  shows "fst (snd (notify iter now sys m)) =
           filter (channel_usable (sys_channels sys)) (fst (resolve_targets iter sys m))"
    and "dom (fst (notify iter now sys m)) = set (fst (resolve_targets iter sys m))"
    and "snd (snd (notify iter now sys m)) =
           snd (check_cooldown now sys (cooldown_key m) (snd (resolve_targets iter sys m)))"
proof -
  obtain chs cd where rt: "resolve_targets iter sys m = (chs, cd)" by (cases "resolve_targets iter sys m")
  obtain ok sys' where cc: "check_cooldown now sys (cooldown_key m) cd = (ok, sys')"
    by (cases "check_cooldown now sys (cooldown_key m) cd")
  have ok: "ok" using assms(2) rt cc by simp
  have chans: "sys_channels sys' = sys_channels sys"
    using check_cooldown_state[of now sys "cooldown_key m" cd] cc by (simp split: if_splits)
  obtain res ts where bt: "build_tasks (sys_channels sys) chs Map.empty [] = (res, ts)"
    by (cases "build_tasks (sys_channels sys) chs Map.empty []")
  obtain res' sent where rn: "run_tasks m ts res [] = (res', sent)" by (cases "run_tasks m ts res []")
  have n: "notify iter now sys m = (res', sent, sys')"
    using assms(1) ok by (simp add: notify_def rt cc chans bt rn)
  have ts: "ts = map (\<lambda>n. (n, the (sys_channels sys n))) (filter (channel_usable (sys_channels sys)) chs)"
    using build_tasks_snd[of "sys_channels sys" chs Map.empty "[]"] bt by simp
  have res: "res = (\<lambda>n. if n \<in> set chs \<and> \<not> channel_usable (sys_channels sys) n then Some False else None)"
    using build_tasks_fst[of "sys_channels sys" chs Map.empty "[]"] bt by simp
  have sent: "sent = map fst ts" using run_tasks_snd[of m ts res "[]"] rn by simp
  have dom: "dom res' = dom res \<union> fst ` set ts" using run_tasks_dom[of m ts res "[]"] rn by simp
  show "fst (snd (notify iter now sys m)) =
           filter (channel_usable (sys_channels sys)) (fst (resolve_targets iter sys m))"
    by (simp add: n rt sent ts comp_def)
  have "dom res = {n \<in> set chs. \<not> channel_usable (sys_channels sys) n}"
    by (auto simp: res dom_def)
  moreover have "fst ` set ts = {n \<in> set chs. channel_usable (sys_channels sys) n}"
    by (force simp: ts)
  ultimately have "dom res' = set chs" using dom by auto
  then show "dom (fst (notify iter now sys m)) = set (fst (resolve_targets iter sys m))"
    by (simp add: n rt)
  show "snd (snd (notify iter now sys m)) =
           snd (check_cooldown now sys (cooldown_key m) (snd (resolve_targets iter sys m)))"
    by (simp add: n rt cc)
qed

lemma notify_state:
  "snd (snd (notify iter now sys m)) =
     (if sys_enabled sys \<and> 0 < snd (resolve_targets iter sys m) \<and>
         fst (check_cooldown now sys (cooldown_key m) (snd (resolve_targets iter sys m)))
      then sys\<lparr>cooldown_records := (cooldown_records sys)(cooldown_key m \<mapsto> now)\<rparr>
      else sys)"
proof (cases "sys_enabled sys")
  case False
  then show ?thesis by (simp add: notify_disabled)
next
  case True
  show ?thesis
  proof (cases "fst (check_cooldown now sys (cooldown_key m) (snd (resolve_targets iter sys m)))")
    case False
    then show ?thesis using True by (simp add: notify_dropped)
  next
    case ok: True
    show ?thesis using True ok notify_dispatched(3)[OF True ok] 
      by (simp add: check_cooldown_state)
  qed
qed


lemma run_tasks_fst:
  "\<forall>(n, ch)\<in>set ts. ch = f n \<Longrightarrow>
     fst (run_tasks m ts res sent) =
       (\<lambda>n. if n \<in> fst ` set ts then Some (send_result (f n) m) else res n)"
proof (induction ts arbitrary: res sent)
  case Nil
  then show ?case by simp
next
  case (Cons t ts)
  obtain n ch where t: "t = (n, ch)" by (cases t)
  have ch: "ch = f n" using Cons.prems t by simp
  have rest: "\<forall>(n, ch)\<in>set ts. ch = f n" using Cons.prems by simp
  have step: "run_tasks m (t # ts) res sent = run_tasks m ts (res(n \<mapsto> send_result ch m)) (sent @ [n])"
    unfolding t send_result_def by (simp split: sum.splits)
  have "fst (run_tasks m ts (res(n \<mapsto> send_result ch m)) (sent @ [n])) =
          (\<lambda>k. if k \<in> fst ` set ts then Some (send_result (f k) m)
                else (res(n \<mapsto> send_result ch m)) k)"
    by (rule Cons.IH[OF rest])
  then have "fst (run_tasks m (t # ts) res sent) =
          (\<lambda>k. if k \<in> fst ` set ts then Some (send_result (f k) m)
                else (res(n \<mapsto> send_result ch m)) k)"
    by (simp only: step)
  then show ?case by (auto simp: t ch fun_eq_iff)
qed

lemma notify_results:
  assumes "sys_enabled sys"
    and "fst (check_cooldown now sys (cooldown_key m) (snd (resolve_targets iter sys m)))"
  shows "fst (notify iter now sys m) =
           (\<lambda>n. if n \<in> set (fst (resolve_targets iter sys m))
                 then Some (channel_usable (sys_channels sys) n \<and> send_result (the (sys_channels sys n)) m)
                 else None)"
proof -
  obtain chs cd where rt: "resolve_targets iter sys m = (chs, cd)" by (cases "resolve_targets iter sys m")
  obtain ok sys' where cc: "check_cooldown now sys (cooldown_key m) cd = (ok, sys')"
    by (cases "check_cooldown now sys (cooldown_key m) cd")
  have ok: "ok" using assms(2) rt cc by simp
  have chans: "sys_channels sys' = sys_channels sys"
    using check_cooldown_state[of now sys "cooldown_key m" cd] cc by (simp split: if_splits)
  obtain res ts where bt: "build_tasks (sys_channels sys) chs Map.empty [] = (res, ts)"
    by (cases "build_tasks (sys_channels sys) chs Map.empty []")
  obtain res' sent where rn: "run_tasks m ts res [] = (res', sent)" by (cases "run_tasks m ts res []")
  have n: "notify iter now sys m = (res', sent, sys')"
    using assms(1) ok by (simp add: notify_def rt cc chans bt rn)
  have ts: "ts = map (\<lambda>n. (n, the (sys_channels sys n))) (filter (channel_usable (sys_channels sys)) chs)"
    using build_tasks_snd[of "sys_channels sys" chs Map.empty "[]"] bt by simp
  have res: "res = (\<lambda>n. if n \<in> set chs \<and> \<not> channel_usable (sys_channels sys) n then Some False else None)"
    using build_tasks_fst[of "sys_channels sys" chs Map.empty "[]"] bt by simp
  have "\<forall>(n, ch)\<in>set ts. ch = the (sys_channels sys n)" by (auto simp: ts)
  then have "fst (run_tasks m ts res []) =
       (\<lambda>n. if n \<in> fst ` set ts then Some (send_result (the (sys_channels sys n)) m) else res n)"
    by (rule run_tasks_fst)
  moreover have "fst ` set ts = {n \<in> set chs. channel_usable (sys_channels sys) n}"
    by (force simp: ts)
  ultimately have "res' = (\<lambda>n. if n \<in> set chs
                 then Some (channel_usable (sys_channels sys) n \<and> send_result (the (sys_channels sys n)) m)
                 else None)"
    using rn by (auto simp: res fun_eq_iff)
  then show ?thesis by (simp add: n rt)
qed

lemma match_rules_cong: "rules sys' = rules sys \<Longrightarrow> match_rules sys' m = match_rules sys m"
  by (simp add: match_rules_def)

lemma resolve_targets_cong:
  "rules sys' = rules sys \<Longrightarrow> default_channels sys' = default_channels sys \<Longrightarrow>
     resolve_targets iter sys' m = resolve_targets iter sys m"
  by (simp add: resolve_targets_def match_rules_def split: list.splits)

lemma notify_fields:
  "rules (snd (snd (notify iter now sys m))) = rules sys"
  "sys_enabled (snd (snd (notify iter now sys m))) = sys_enabled sys"
  "default_channels (snd (snd (notify iter now sys m))) = default_channels sys"
  "sys_channels (snd (snd (notify iter now sys m))) = sys_channels sys"
  by (simp_all add: notify_state)

lemma notify_all_fields:
  "rules (notify_all iter sys later) = rules sys \<and>
   sys_enabled (notify_all iter sys later) = sys_enabled sys \<and>
   default_channels (notify_all iter sys later) = default_channels sys \<and>
   sys_channels (notify_all iter sys later) = sys_channels sys"
proof (induction later arbitrary: sys)
  case Nil
  then show ?case by simp
next
  case (Cons tm later)
  obtain t m where tm: "tm = (t, m)" by (cases tm)
  show ?case unfolding tm using Cons.IH[of "snd (snd (notify iter t sys m))"]
    by (simp add: notify_fields)
qed

lemma notify_ledger_lower:
  assumes "cooldown_records sys k = Some t" and "t1 \<le> t" and "t1 \<le> now"
  shows "\<exists>t'. cooldown_records (snd (snd (notify iter now sys m))) k = Some t' \<and> t1 \<le> t'"
  using assms by (simp add: notify_state)

lemma notify_all_ledger_lower:
  assumes "cooldown_records sys k = Some t" and "t1 \<le> t" and "\<forall>(t', m')\<in>set later. t1 \<le> t'"
  shows "\<exists>t'. cooldown_records (notify_all iter sys later) k = Some t' \<and> t1 \<le> t'"
  using assms
proof (induction later arbitrary: sys t)
  case Nil
  then show ?case by simp
next
  case (Cons tm later)
  obtain t0 m where tm: "tm = (t0, m)" by (cases tm)
  have "t1 \<le> t0" using Cons.prems(3) tm by simp
  then obtain t' where t': "cooldown_records (snd (snd (notify iter t0 sys m))) k = Some t'" "t1 \<le> t'"
    using notify_ledger_lower[OF Cons.prems(1,2)] by blast
  have "\<forall>(t', m')\<in>set later. t1 \<le> t'" using Cons.prems(3) by simp
  from Cons.IH[OF t' this] show ?case by (simp add: tm)
qed

lemmas example_defs =
  example_system_def refund_rule_def urgent_rule_def logistics_rule_def example_message_def
  console_channel_def broken_channel_def py_def

lemmas notify_defs =
  match_rules_def notify_def resolve_targets_def check_cooldown_def cooldown_key_def usec_def
  set_update_def set_add_def send_with_timeout_def

section \<open>Deduplication: lemmas\<close>

lemma set_add_fresh: "x \<notin> set s \<Longrightarrow> set_add x s = s @ [x]"
  by (simp add: set_add_def)

lemma fold_set_add_distinct: "distinct (s @ xs) \<Longrightarrow> fold set_add xs s = s @ xs"
  by (induction xs arbitrary: s) (auto simp: set_add_def)

lemma py_set_distinct: "distinct xs \<Longrightarrow> py_set xs = xs"
  using fold_set_add_distinct[of "[]" xs] by (simp add: py_set_def set_update_def)

lemma set_py_set: "set (py_set xs) = set xs"
  by (simp add: py_set_def set_set_update)

lemma distinct_py_set: "distinct (py_set xs)"
  by (simp add: py_set_def distinct_set_update)

lemma length_slice_last: "length (slice_last n xs) = min n (length xs)"
  by (auto simp: slice_last_def)

lemma distinct_slice_last: "distinct xs \<Longrightarrow> distinct (slice_last n xs)"
  by (simp add: slice_last_def)

lemma set_iteration_length:
  assumes "set_iteration iter" and "distinct s"
  shows "length (iter s) = length s"
proof -
  have "distinct (iter s)" "set (iter s) = set s" using assms by (auto simp: set_iteration_def)
  then show ?thesis using assms(2) by (metis distinct_card)
qed

lemma deduplicate_loop_step:
  "deduplicate_loop iter seen acc (m # rest) =
     (if msg_id m \<in> set seen then deduplicate_loop iter seen acc rest
      else deduplicate_loop iter (trim_seen iter (set_add (msg_id m) seen)) (acc @ [m]) rest)"
  by (simp add: trim_seen_def Let_def)

lemma trim_seen_small: "length seen1 \<le> 10000 \<Longrightarrow> trim_seen iter seen1 = seen1"
  by (simp add: trim_seen_def)

lemma trim_seen_large:
  assumes "set_iteration iter" and "distinct seen1" and "length seen1 > 10000"
  shows "length (trim_seen iter seen1) = 8000" and "distinct (trim_seen iter seen1)"
    and "set (trim_seen iter seen1) \<subseteq> set seen1"
proof -
  have d: "distinct (iter seen1)" and s: "set (iter seen1) = set seen1"
    using assms(1,2) by (auto simp: set_iteration_def)
  have l: "length (iter seen1) = length seen1" using assms(1,2) by (rule set_iteration_length)
  have ds: "distinct (slice_last 8000 (iter seen1))" using d by (rule distinct_slice_last)
  have t: "trim_seen iter seen1 = slice_last 8000 (iter seen1)"
    using assms(3) ds by (simp add: trim_seen_def py_set_distinct)
  show "length (trim_seen iter seen1) = 8000" using assms(3) l by (simp add: t length_slice_last)
  show "distinct (trim_seen iter seen1)" using ds by (simp add: t)
  show "set (trim_seen iter seen1) \<subseteq> set seen1"
    unfolding t slice_last_def using s set_drop_subset by fastforce
qed

lemma deduplicate_loop_append:
  "deduplicate_loop iter seen acc (xs @ ys) =
     (case deduplicate_loop iter seen acc xs of (acc', seen') \<Rightarrow> deduplicate_loop iter seen' acc' ys)"
proof (induction xs arbitrary: seen acc)
  case Nil
  then show ?case by simp
next
  case (Cons m xs)
  show ?case by (simp only: append_Cons deduplicate_loop_step Cons.IH split: if_splits) simp
qed

lemma deduplicate_loop_acc:
  "deduplicate_loop iter seen acc xs =
     (acc @ fst (deduplicate_loop iter seen [] xs), snd (deduplicate_loop iter seen [] xs))"
proof (induction xs arbitrary: seen acc)
  case Nil
  then show ?case by simp
next
  case (Cons m xs)
  show ?case
  proof (cases "msg_id m \<in> set seen")
    case True
    then show ?thesis using Cons.IH[of seen acc] by (simp only: deduplicate_loop_step if_True)
  next
    case False
    let ?s = "trim_seen iter (set_add (msg_id m) seen)"
    have a: "deduplicate_loop iter ?s (acc @ [m]) xs =
               ((acc @ [m]) @ fst (deduplicate_loop iter ?s [] xs), snd (deduplicate_loop iter ?s [] xs))"
      by (rule Cons.IH)
    have b: "deduplicate_loop iter ?s ([] @ [m]) xs =
               (([] @ [m]) @ fst (deduplicate_loop iter ?s [] xs), snd (deduplicate_loop iter ?s [] xs))"
      by (rule Cons.IH)
    show ?thesis using False a b by (simp only: deduplicate_loop_step if_False) simp
  qed
qed

lemma deduplicate_loop_invariant:
  assumes "set_iteration iter" and "distinct seen" and "length seen \<le> 10000"
  shows "distinct (snd (deduplicate_loop iter seen acc xs)) \<and>
         length (snd (deduplicate_loop iter seen acc xs)) \<le> 10000"
  using assms(2,3)
proof (induction xs arbitrary: seen acc)
  case Nil
  then show ?case by simp
next
  case (Cons m xs)
  show ?case
  proof (cases "msg_id m \<in> set seen")
    case True
    then show ?thesis using Cons.IH[OF Cons.prems] by (simp only: deduplicate_loop_step if_True)
  next
    case False
    let ?s1 = "set_add (msg_id m) seen"
    have s1: "?s1 = seen @ [msg_id m]" using False by (rule set_add_fresh)
    have d1: "distinct ?s1" using Cons.prems(1) False by (simp add: s1)
    have "distinct (trim_seen iter ?s1) \<and> length (trim_seen iter ?s1) \<le> 10000"
    proof (cases "length ?s1 > 10000")
      case True
      then show ?thesis using trim_seen_large[OF assms(1) d1 True] by simp
    next
      case False
      then show ?thesis using d1 by (simp add: trim_seen_small)
    qed
    then have "distinct (snd (deduplicate_loop iter (trim_seen iter ?s1) (acc @ [m]) xs)) \<and>
         length (snd (deduplicate_loop iter (trim_seen iter ?s1) (acc @ [m]) xs)) \<le> 10000"
      using Cons.IH by blast
    then show ?thesis using False by (simp only: deduplicate_loop_step if_False)
  qed
qed

lemma deduplicate_loop_no_trim:
  assumes "distinct seen" and "length seen + length xs \<le> 10000"
  shows "\<exists>new. deduplicate_loop iter seen acc xs = (acc @ new, seen @ map msg_id new) \<and>
           distinct (map msg_id new) \<and>
           set (map msg_id new) = msg_id ` set xs - set seen \<and>
           subseq new xs"
  using assms
proof (induction xs arbitrary: seen acc)
  case Nil
  then show ?case by simp
next
  case (Cons m xs)
  show ?case
  proof (cases "msg_id m \<in> set seen")
    case True
    have "length seen + length xs \<le> 10000" using Cons.prems(2) by simp
    from Cons.IH[OF Cons.prems(1) this, of acc] obtain new where
      new: "deduplicate_loop iter seen acc xs = (acc @ new, seen @ map msg_id new)"
        "distinct (map msg_id new)" "set (map msg_id new) = msg_id ` set xs - set seen" "subseq new xs"
      by blast
    have "deduplicate_loop iter seen acc (m # xs) = (acc @ new, seen @ map msg_id new)"
      using True new(1) by (simp only: deduplicate_loop_step if_True)
    moreover have "set (map msg_id new) = msg_id ` set (m # xs) - set seen"
      using True new(3) by auto
    moreover have "subseq new (m # xs)" using new(4) by (rule list_emb_Cons)
    ultimately show ?thesis using new(2) by blast
  next
    case False
    let ?s1 = "seen @ [msg_id m]"
    have s1: "set_add (msg_id m) seen = ?s1" using False by (rule set_add_fresh)
    have t: "trim_seen iter ?s1 = ?s1" using Cons.prems(2) by (simp add: trim_seen_small)
    have d1: "distinct ?s1" using Cons.prems(1) False by simp
    have l1: "length ?s1 + length xs \<le> 10000" using Cons.prems(2) by simp
    from Cons.IH[OF d1 l1, of "acc @ [m]"] obtain new where
      new: "deduplicate_loop iter ?s1 (acc @ [m]) xs = ((acc @ [m]) @ new, ?s1 @ map msg_id new)"
        "distinct (map msg_id new)" "set (map msg_id new) = msg_id ` set xs - set ?s1" "subseq new xs"
      by blast
    have "deduplicate_loop iter seen acc (m # xs) = (acc @ (m # new), seen @ map msg_id (m # new))"
      using False new(1) by (simp only: deduplicate_loop_step if_False s1 t) simp
    moreover have "distinct (map msg_id (m # new))" using new(2,3) by auto
    moreover have "set (map msg_id (m # new)) = msg_id ` set (m # xs) - set seen"
      using False new(3) by auto
    moreover have "subseq (m # new) (m # xs)" using new(4) by simp
    ultimately show ?thesis by blast
  qed
qed


lemma deduplicate_messages_append:
  "deduplicate_messages iter src (xs @ ys) =
     (fst (deduplicate_messages iter src xs) @
        fst (deduplicate_messages iter (snd (deduplicate_messages iter src xs)) ys),
      snd (deduplicate_messages iter (snd (deduplicate_messages iter src xs)) ys))"
proof -
  obtain new1 seen1 where l1: "deduplicate_loop iter (seen_message_ids src) [] xs = (new1, seen1)"
    by (cases "deduplicate_loop iter (seen_message_ids src) [] xs")
  obtain new2 seen2 where l2: "deduplicate_loop iter seen1 [] ys = (new2, seen2)"
    by (cases "deduplicate_loop iter seen1 [] ys")
  have "deduplicate_loop iter seen1 new1 ys = (new1 @ new2, seen2)"
    using deduplicate_loop_acc[of iter seen1 new1 ys] l2 by simp
  then have "deduplicate_loop iter (seen_message_ids src) [] (xs @ ys) = (new1 @ new2, seen2)"
    by (simp add: deduplicate_loop_append l1)
  then show ?thesis by (simp add: deduplicate_messages_def l1 l2)
qed

lemma deduplicate_messages_single:
  "deduplicate_messages iter src [m] =
     (if msg_id m \<in> set (seen_message_ids src) then ([], src)
      else ([m], src\<lparr>seen_message_ids := trim_seen iter (set_add (msg_id m) (seen_message_ids src))\<rparr>))"
  by (simp add: deduplicate_messages_def trim_seen_def Let_def)

lemma deduplicate_messages_no_trim:
  assumes "distinct (seen_message_ids src)" and "length (seen_message_ids src) + length xs \<le> 10000"
  shows "seen_message_ids (snd (deduplicate_messages iter src xs)) =
           seen_message_ids src @ map msg_id (fst (deduplicate_messages iter src xs))"
    and "distinct (map msg_id (fst (deduplicate_messages iter src xs)))"
    and "set (map msg_id (fst (deduplicate_messages iter src xs))) =
           msg_id ` set xs - set (seen_message_ids src)"
    and "subseq (fst (deduplicate_messages iter src xs)) xs"
proof -
  from deduplicate_loop_no_trim[OF assms, of iter "[]"] obtain new where
    new: "deduplicate_loop iter (seen_message_ids src) [] xs = (new, seen_message_ids src @ map msg_id new)"
      "distinct (map msg_id new)" "set (map msg_id new) = msg_id ` set xs - set (seen_message_ids src)"
      "subseq new xs"
    by auto
  have d: "deduplicate_messages iter src xs =
             (new, src\<lparr>seen_message_ids := seen_message_ids src @ map msg_id new\<rparr>)"
    by (simp add: deduplicate_messages_def new(1))
  show "seen_message_ids (snd (deduplicate_messages iter src xs)) =
           seen_message_ids src @ map msg_id (fst (deduplicate_messages iter src xs))"
    by (simp add: d)
  show "distinct (map msg_id (fst (deduplicate_messages iter src xs)))" using new(2) by (simp add: d)
  show "set (map msg_id (fst (deduplicate_messages iter src xs))) =
           msg_id ` set xs - set (seen_message_ids src)" using new(3) by (simp add: d)
  show "subseq (fst (deduplicate_messages iter src xs)) xs" using new(4) by (simp add: d)
qed

lemma inj_numbered_id: "inj numbered_id"
  by (simp add: inj_def numbered_id_def)

lemma distinct_numbered: "distinct (map numbered_id [i..<j])"
  by (simp add: distinct_map inj_numbered_id inj_on_def numbered_id_def)

lemma numbered_id_mem: "numbered_id k \<in> set (map numbered_id [i..<j]) \<longleftrightarrow> i \<le> k \<and> k < j"
  by (auto simp: numbered_id_def)

lemma trim_seen_rev_full:
  "trim_seen rev (map numbered_id [0..<10000] @ [numbered_id 10000]) = rev (map numbered_id [0..<8000])"
proof -
  let ?old = "map numbered_id [0..<10000]"
  have len: "length (?old @ [numbered_id 10000]) = 10001" by simp
  have "slice_last 8000 (rev (?old @ [numbered_id 10000])) = drop 2000 (rev ?old)"
    by (simp add: slice_last_def)
  also have "\<dots> = rev (take 8000 ?old)" by (simp add: drop_rev)
  also have "take 8000 ?old = map numbered_id [0..<8000]" by (simp add: take_map)
  finally have sl: "slice_last 8000 (rev (?old @ [numbered_id 10000])) = rev (map numbered_id [0..<8000])" .
  have "distinct (rev (map numbered_id [0..<8000]))" using distinct_numbered[of 0 8000] by simp
  then have "py_set (rev (map numbered_id [0..<8000])) = rev (map numbered_id [0..<8000])"
    by (rule py_set_distinct)
  then show ?thesis unfolding trim_seen_def using len sl by simp
qed

lemma trim_seen_insertion_order:
  assumes "distinct seen1" and "length seen1 = 10001"
  shows "trim_seen (\<lambda>s. s) seen1 = drop 2001 seen1"
proof -
  have "distinct (drop 2001 seen1)" using assms(1) by simp
  then have "py_set (drop 2001 seen1) = drop 2001 seen1" by (rule py_set_distinct)
  then show ?thesis using assms(2) by (simp add: trim_seen_def slice_last_def)
qed

lemma upt_10001: "[0..<10001] = [0..<10000] @ [10000::nat]"
  using upt_Suc_append[of 0 10000] by (simp del: upt_Suc)

lemma trim_seen_insertion_full:
  "trim_seen (\<lambda>s. s) (map numbered_id [0..<10000] @ [numbered_id 10000]) =
     map numbered_id [2001..<10001]"
proof -
  have e: "map numbered_id [0..<10000] @ [numbered_id 10000] = map numbered_id [0..<10001]"
    by (simp only: upt_10001 map_append list.map)
  have "trim_seen (\<lambda>s. s) (map numbered_id [0..<10001]) = drop 2001 (map numbered_id [0..<10001])"
    by (rule trim_seen_insertion_order) (simp_all add: distinct_numbered)
  also have "\<dots> = map numbered_id [2001..<10001]" by (simp only: drop_map drop_upt add_0)
  finally show ?thesis unfolding e .
qed

lemma deduplicate_messages_bounded:
  assumes "set_iteration iter" and "distinct (seen_message_ids src)"
    and "length (seen_message_ids src) \<le> 10000"
  shows "distinct (seen_message_ids (snd (deduplicate_messages iter src xs))) \<and>
         length (seen_message_ids (snd (deduplicate_messages iter src xs))) \<le> 10000"
  using deduplicate_loop_invariant[OF assms, of "[]" xs]
  by (auto simp: deduplicate_messages_def split: prod.splits)

lemma deduplicate_messages_trim_size:
  assumes "set_iteration iter" and "distinct (seen_message_ids src)"
    and "length (seen_message_ids src) = 10000" and "msg_id m \<notin> set (seen_message_ids src)"
  shows "length (seen_message_ids (snd (deduplicate_messages iter src [m]))) = 8000"
proof -
  have s1: "set_add (msg_id m) (seen_message_ids src) = seen_message_ids src @ [msg_id m]"
    using assms(4) by (rule set_add_fresh)
  have "distinct (seen_message_ids src @ [msg_id m])" using assms(2,4) by simp
  moreover have "length (seen_message_ids src @ [msg_id m]) > 10000" using assms(3) by simp
  ultimately have "length (trim_seen iter (seen_message_ids src @ [msg_id m])) = 8000"
    using trim_seen_large(1)[OF assms(1)] by blast
  then show ?thesis using assms(4) by (simp add: deduplicate_messages_single s1)
qed

lemmas dedup_eval = deduplicate_messages_def set_add_def numbered_message_def numbered_id_def
  fresh_source_def py_def Let_def

section \<open>Keyword filters and monitor: lemmas\<close>

lemma find_first_iff:
  "List.find P xs = Some x \<longleftrightarrow> (\<exists>pre post. xs = pre @ x # post \<and> P x \<and> (\<forall>y\<in>set pre. \<not> P y))"
proof (induction xs)
  case Nil
  then show ?case by simp
next
  case (Cons a xs)
  show ?case
  proof (cases "P a")
    case True
    have "(\<exists>pre post. a # xs = pre @ x # post \<and> P x \<and> (\<forall>y\<in>set pre. \<not> P y)) \<longleftrightarrow> a = x"
    proof
      assume "\<exists>pre post. a # xs = pre @ x # post \<and> P x \<and> (\<forall>y\<in>set pre. \<not> P y)"
      then obtain pre post where h: "a # xs = pre @ x # post" "\<forall>y\<in>set pre. \<not> P y" by blast
      show "a = x" using h True by (cases pre) auto
    next
      assume "a = x"
      then have "a # xs = [] @ x # xs \<and> P x \<and> (\<forall>y\<in>set []. \<not> P y)" using True by simp
      then show "\<exists>pre post. a # xs = pre @ x # post \<and> P x \<and> (\<forall>y\<in>set pre. \<not> P y)" by blast
    qed
    then show ?thesis using True by simp
  next
    case False
    have "(\<exists>pre post. a # xs = pre @ x # post \<and> P x \<and> (\<forall>y\<in>set pre. \<not> P y)) \<longleftrightarrow>
          (\<exists>pre post. xs = pre @ x # post \<and> P x \<and> (\<forall>y\<in>set pre. \<not> P y))"
    proof
      assume "\<exists>pre post. a # xs = pre @ x # post \<and> P x \<and> (\<forall>y\<in>set pre. \<not> P y)"
      then obtain pre post where h: "a # xs = pre @ x # post" "P x" "\<forall>y\<in>set pre. \<not> P y" by blast
      then obtain pre' where "pre = a # pre'" using False by (cases pre) auto
      then have "xs = pre' @ x # post \<and> P x \<and> (\<forall>y\<in>set pre'. \<not> P y)" using h by simp
      then show "\<exists>pre post. xs = pre @ x # post \<and> P x \<and> (\<forall>y\<in>set pre. \<not> P y)" by blast
    next
      assume "\<exists>pre post. xs = pre @ x # post \<and> P x \<and> (\<forall>y\<in>set pre. \<not> P y)"
      then obtain pre post where h: "xs = pre @ x # post" "P x" "\<forall>y\<in>set pre. \<not> P y" by blast
      then have "a # xs = (a # pre) @ x # post \<and> P x \<and> (\<forall>y\<in>set (a # pre). \<not> P y)"
        using False by simp
      then show "\<exists>pre post. a # xs = pre @ x # post \<and> P x \<and> (\<forall>y\<in>set pre. \<not> P y)" by blast
    qed
    then show ?thesis using False Cons.IH by simp
  qed
qed

lemma check_loop_find:
  "check_text = (if kf_case_sensitive f then text else lower text) \<Longrightarrow>
   check_loop lower ratio f text check_text kws = List.find (keyword_matches lower ratio f text) kws"
  by (induction kws) (auto simp: keyword_matches_def Let_def split: match_mode.splits)

lemma check_v2_loop_find: "check_v2_loop check_text kws = List.find (\<lambda>kw. str_in kw check_text) kws"
  by (induction kws) auto

lemma check_find:
  "text \<noteq> [] \<Longrightarrow>
   check lower ratio f (Some text) = List.find (keyword_matches lower ratio f text) (kf_keywords f)"
  by (simp add: check_def check_loop_find)

lemma check_v2_find:
  "text \<noteq> [] \<Longrightarrow>
   check_v2 lower g (Some text) =
     List.find (\<lambda>kw. str_in kw (if v2_case_sensitive g then text else lower text)) (v2_keywords g)"
  by (simp add: check_v2_def check_v2_loop_find)

lemma find_map_lower: "List.find P (map h xs) = map_option h (List.find (\<lambda>x. P (h x)) xs)"
  by (induction xs) auto

lemmas filter_eval = refund_filter_def check_def check_v2_def KeywordFilter_v2_init_def
  ocr_error_match_def ocr_error_map_def replace_char_def remove_char_def ascii_lower_def
  fuzzy_match_def keyword_matches_def py_def Let_def


lemma is_available_after_success:
  "is_available now (update_poll_status tf src True err) \<longleftrightarrow> src_enabled src"
  by (simp add: is_available_def update_poll_status_def)





section \<open>The notification system: rules, channels and cooldown\<close>

subsection \<open>Rule matching\<close>

text \<open>
  Claim C1 says that a rule is matched if and only if it is enabled and the message's keyword
  occurs as a substring of one of the rule's keyword entries. The code tests the other
  direction, \<open>kw in message.keyword\<close>: the rule's keyword is searched in the message's keyword.
  In the example configuration the message keyword \<open>delivery\<close> occurs within the entry
  \<open>late delivery\<close> of the enabled logistics rule, yet no rule is matched; and the message
  keyword \<open>refund now\<close> matches the refund rule although it does not occur within the rule's
  only entry \<open>refund\<close>.
\<close>

theorem match_rules_direction_counterexample:
  "match_rules example_system (example_message (py ''delivery'') 0) = [] \<and>
   rule_enabled logistics_rule \<and>
   rule_keywords logistics_rule = [py ''late delivery''] \<and>
   str_in (py ''delivery'') (py ''late delivery'') \<and>
   match_rules example_system (example_message (py ''refund now'') 0) = [refund_rule, urgent_rule] \<and>
   rule_keywords refund_rule = [py ''refund''] \<and>
   \<not> str_in (py ''refund now'') (py ''refund'')"
  by (simp add: example_defs notify_defs)

text \<open>
  Claim C1 as amended: \<open>_match_rules\<close> returns, in configuration order, exactly the rules that
  are enabled and have at least one keyword entry that occurs as a substring of the message's
  keyword.
\<close>

theorem match_rules_characterisation:
  "match_rules sys m =
     filter (\<lambda>r. rule_enabled r \<and> (\<exists>kw\<in>set (rule_keywords r). \<exists>p q. keyword m = p @ kw @ q))
       (rules sys) \<and>
   (r \<in> set (match_rules sys m) \<longleftrightarrow>
      r \<in> set (rules sys) \<and> rule_enabled r \<and>
      (\<exists>kw\<in>set (rule_keywords r). \<exists>p q. keyword m = p @ kw @ q))"
  by (auto simp: match_rules_filter any_kw_in_iff str_in_iff)

theorem match_rules_characterisation_witness:
  "urgent_rule \<in> set (match_rules example_system (example_message (py ''refund now'') 0)) \<and>
   (\<exists>kw\<in>set (rule_keywords urgent_rule). \<exists>p q. py ''refund now'' = p @ kw @ q)"
proof -
  have m: "urgent_rule \<in> set (match_rules example_system (example_message (py ''refund now'') 0))"
    by (simp add: example_defs notify_defs)
  have k: "keyword (example_message (py ''refund now'') 0) = py ''refund now''"
    by (simp add: example_message_def)
  from match_rules_characterisation[of example_system "example_message (py ''refund now'') 0" urgent_rule] m
  have "\<exists>kw\<in>set (rule_keywords urgent_rule).
          \<exists>p q. keyword (example_message (py ''refund now'') 0) = p @ kw @ q"
    by blast
  then show ?thesis using m unfolding k by blast
qed

subsection \<open>Channel union and minimum cooldown\<close>

text \<open>
  Claim C3: when at least one rule matches, the channels \<open>notify\<close> resolves are exactly the
  union of the matched rules' channel lists, each once, and the cooldown it applies is the
  minimum of the matched rules' cooldowns. For an enabled system this decides the whole call:
  if the cooldown check with that minimum lets the notification through, the returned
  dictionary has exactly the channels of the union as keys and \<open>send\<close> is invoked once on each
  of them that is configured and available; otherwise nothing is sent and the dictionary is
  empty. This holds for every order in which Python may enumerate the set of channels.
\<close>

theorem rule_union_min_cooldown:
  assumes "set_iteration iter" and "match_rules sys m \<noteq> []"
  shows "set (fst (resolve_targets iter sys m)) = (\<Union>r\<in>set (match_rules sys m). set (channels r)) \<and>
         distinct (fst (resolve_targets iter sys m)) \<and>
         snd (resolve_targets iter sys m) = Min (cooldown ` set (match_rules sys m)) \<and>
         (sys_enabled sys \<longrightarrow>
            (if fst (check_cooldown now sys (cooldown_key m) (Min (cooldown ` set (match_rules sys m))))
             then dom (fst (notify iter now sys m)) = (\<Union>r\<in>set (match_rules sys m). set (channels r)) \<and>
                  distinct (fst (snd (notify iter now sys m))) \<and>
                  set (fst (snd (notify iter now sys m))) =
                    {c \<in> (\<Union>r\<in>set (match_rules sys m). set (channels r)). channel_usable (sys_channels sys) c}
             else fst (notify iter now sys m) = Map.empty \<and> fst (snd (notify iter now sys m)) = []))"
proof -
  let ?u = "fold (\<lambda>r s. set_update s (channels r)) (match_rules sys m) []"
  have d: "distinct ?u" by (simp add: fold_update_distinct)
  have chs: "fst (resolve_targets iter sys m) = iter ?u" using assms(2) by (rule resolve_targets_some(1))
  have cd: "snd (resolve_targets iter sys m) = Min (cooldown ` set (match_rules sys m))"
    using assms(2) by (rule resolve_targets_some(2))
  have it: "distinct (iter ?u)" "set (iter ?u) = set ?u"
    using assms(1) d by (auto simp: set_iteration_def)
  have s: "set (fst (resolve_targets iter sys m)) = (\<Union>r\<in>set (match_rules sys m). set (channels r))"
    by (simp add: chs it fold_update_set)
  have dd: "distinct (fst (resolve_targets iter sys m))" by (simp add: chs it)
  have n: "sys_enabled sys \<longrightarrow>
            (if fst (check_cooldown now sys (cooldown_key m) (Min (cooldown ` set (match_rules sys m))))
             then dom (fst (notify iter now sys m)) = (\<Union>r\<in>set (match_rules sys m). set (channels r)) \<and>
                  distinct (fst (snd (notify iter now sys m))) \<and>
                  set (fst (snd (notify iter now sys m))) =
                    {c \<in> (\<Union>r\<in>set (match_rules sys m). set (channels r)). channel_usable (sys_channels sys) c}
             else fst (notify iter now sys m) = Map.empty \<and> fst (snd (notify iter now sys m)) = [])"
  proof
    assume en: "sys_enabled sys"
    show "if fst (check_cooldown now sys (cooldown_key m) (Min (cooldown ` set (match_rules sys m))))
             then dom (fst (notify iter now sys m)) = (\<Union>r\<in>set (match_rules sys m). set (channels r)) \<and>
                  distinct (fst (snd (notify iter now sys m))) \<and>
                  set (fst (snd (notify iter now sys m))) =
                    {c \<in> (\<Union>r\<in>set (match_rules sys m). set (channels r)). channel_usable (sys_channels sys) c}
             else fst (notify iter now sys m) = Map.empty \<and> fst (snd (notify iter now sys m)) = []"
    proof (cases "fst (check_cooldown now sys (cooldown_key m) (Min (cooldown ` set (match_rules sys m))))")
      case True
      then have ok: "fst (check_cooldown now sys (cooldown_key m) (snd (resolve_targets iter sys m)))"
        by (simp add: cd)
      have "dom (fst (notify iter now sys m)) = (\<Union>r\<in>set (match_rules sys m). set (channels r))"
        using notify_dispatched(2)[OF en ok] s by simp
      moreover have sent: "fst (snd (notify iter now sys m)) =
          filter (channel_usable (sys_channels sys)) (fst (resolve_targets iter sys m))"
        by (rule notify_dispatched(1)[OF en ok])
      moreover have "distinct (fst (snd (notify iter now sys m)))" using dd by (simp add: sent)
      moreover have "set (fst (snd (notify iter now sys m))) =
          {c \<in> (\<Union>r\<in>set (match_rules sys m). set (channels r)). channel_usable (sys_channels sys) c}"
        using s by (auto simp: sent)
      ultimately show ?thesis using True by simp
    next
      case False
      then have "\<not> fst (check_cooldown now sys (cooldown_key m) (snd (resolve_targets iter sys m)))"
        by (simp add: cd)
      from notify_dropped[OF en this] have "notify iter now sys m = (Map.empty, [], sys)" .
      then show ?thesis using False by simp
    qed
  qed
  show ?thesis using s dd cd n by blast
qed

theorem rule_union_min_cooldown_witness:
  "set_iteration (\<lambda>s::pystr list. s) \<and>
   match_rules example_system (example_message (py ''refund'') 0) = [refund_rule, urgent_rule] \<and>
   set (fst (resolve_targets (\<lambda>s. s) example_system (example_message (py ''refund'') 0))) =
     {py ''console'', py ''file''} \<and>
   snd (resolve_targets (\<lambda>s. s) example_system (example_message (py ''refund'') 0)) = 60 \<and>
   dom (fst (notify (\<lambda>s. s) 0 example_system (example_message (py ''refund'') 0))) =
     {py ''console'', py ''file''}"
proof -
  let ?m = "example_message (py ''refund'') 0"
  have h1: "set_iteration (\<lambda>s::pystr list. s)" by (rule set_iteration_id)
  have mr: "match_rules example_system ?m = [refund_rule, urgent_rule]"
    by (simp add: example_defs notify_defs)
  then have h2: "match_rules example_system ?m \<noteq> []" by simp
  have en: "sys_enabled example_system" by (simp add: example_system_def)
  have u: "(\<Union>r\<in>set (match_rules example_system ?m). set (channels r)) = {py ''console'', py ''file''}"
    unfolding mr by (auto simp: example_defs)
  have c: "Min (cooldown ` set (match_rules example_system ?m)) = 60"
    unfolding mr by (simp add: example_defs)
  have ok: "fst (check_cooldown 0 example_system (cooldown_key ?m) 60)"
    by (simp add: example_defs notify_defs)
  from rule_union_min_cooldown[OF h1 h2, of 0] en ok
  show ?thesis unfolding u c using h1 mr by simp
qed

subsection \<open>The cooldown window\<close>

text \<open>
  Claim C2 says that of any two notifications with the same cooldown key that match a rule,
  the second is dropped when it comes less than the governing cooldown after the first. The
  ledger holds the time of the last notification that was let through, not of the last one
  seen, and the cooldown check reads the clock (\<open>datetime.now()\<close>), not the message. In the
  example configuration the governing cooldown of the keyword \<open>refund\<close> is 60 seconds. Three
  notifications arrive at 0, 40 and 80 seconds, each with the arrival time as its timestamp:
  the first is sent, the second is dropped, and the third is sent to both channels although
  it comes only 40 seconds after the second.
\<close>

theorem cooldown_any_two_counterexample:
  "cooldown_key (example_message (py ''refund'') (usec 80)) =
     cooldown_key (example_message (py ''refund'') (usec 40)) \<and>
   match_rules example_system (example_message (py ''refund'') (usec 40)) = [refund_rule, urgent_rule] \<and>
   match_rules example_system (example_message (py ''refund'') (usec 80)) = [refund_rule, urgent_rule] \<and>
   snd (resolve_targets (\<lambda>s. s) example_system (example_message (py ''refund'') (usec 80))) = 60 \<and>
   timestamp (example_message (py ''refund'') (usec 80)) -
     timestamp (example_message (py ''refund'') (usec 40)) < usec 60 \<and>
   fst (snd (notify (\<lambda>s. s) (usec 40)
     (notify_all (\<lambda>s. s) example_system [(usec 0, example_message (py ''refund'') (usec 0))])
     (example_message (py ''refund'') (usec 40)))) = [] \<and>
   fst (snd (notify (\<lambda>s. s) (usec 80)
     (notify_all (\<lambda>s. s) example_system
        [(usec 0, example_message (py ''refund'') (usec 0)),
         (usec 40, example_message (py ''refund'') (usec 40))])
     (example_message (py ''refund'') (usec 80)))) = [py ''console'', py ''file'']"
  by (simp add: example_defs notify_defs)

text \<open>
  Claim C2 as amended: let a first notification pass the cooldown check with a positive
  governing cooldown at clock reading \<open>t1\<close>, so that \<open>t1\<close> enters the ledger. Then, whatever
  notifications are processed in between (the clock never before \<open>t1\<close>), a notification with
  the same cooldown key that matches at least one rule and whose cooldown check runs at a
  clock reading \<open>t2\<close> with \<open>t2 - t1\<close> less than the minimum cooldown of its matched rules
  produces no channel send, returns the empty dictionary and leaves the system as it was.
\<close>

theorem cooldown_drops_second:
  assumes enabled: "sys_enabled sys"
    and first_positive: "0 < snd (resolve_targets iter sys m1)"
    and first_allowed: "fst (check_cooldown t1 sys (cooldown_key m1) (snd (resolve_targets iter sys m1)))"
    and same_key: "cooldown_key m2 = cooldown_key m1"
    and clock: "t1 \<le> t2" "\<forall>(t, m)\<in>set between. t1 \<le> t"
    and matched: "match_rules sys m2 \<noteq> []"
    and window: "t2 - t1 < usec (Min (cooldown ` set (match_rules sys m2)))"
  shows "notify iter t2 (notify_all iter sys ((t1, m1) # between)) m2 =
           (Map.empty, [], notify_all iter sys ((t1, m1) # between))"
proof -
  define sys1 where "sys1 = snd (snd (notify iter t1 sys m1))"
  define sysL where "sysL = notify_all iter sys ((t1, m1) # between)"
  have sysL: "sysL = notify_all iter sys1 between" by (simp add: sysL_def sys1_def)
  have "cooldown_records sys1 (cooldown_key m2) = Some t1"
    unfolding sys1_def using enabled first_positive first_allowed same_key by (simp add: notify_state)
  then obtain t' where t': "cooldown_records sysL (cooldown_key m2) = Some t'" "t1 \<le> t'"
    unfolding sysL using notify_all_ledger_lower[of sys1 "cooldown_key m2" t1 t1 between iter] clock(2)
    by auto
  have fields: "rules sysL = rules sys" "default_channels sysL = default_channels sys"
    "sys_enabled sysL = sys_enabled sys"
    using notify_all_fields[of iter sys1 between] unfolding sysL sys1_def by (simp_all add: notify_fields)
  have rt: "resolve_targets iter sysL m2 = resolve_targets iter sys m2"
    by (rule resolve_targets_cong) (simp_all only: fields)
  have cd: "snd (resolve_targets iter sys m2) = Min (cooldown ` set (match_rules sys m2))"
    using matched by (rule resolve_targets_some(2))
  define c where "c = Min (cooldown ` set (match_rules sys m2))"
  have "t2 - t' < usec c" using window t'(2) by (simp add: c_def)
  moreover have "0 < c" using window clock(1) by (simp add: usec_def c_def)
  ultimately have dropped:
    "\<not> fst (check_cooldown t2 sysL (cooldown_key m2) (snd (resolve_targets iter sysL m2)))"
    unfolding rt cd c_def[symmetric] by (simp add: check_cooldown_allows t'(1))
  have "sys_enabled sysL" using fields enabled by simp
  then have "notify iter t2 sysL m2 = (Map.empty, [], sysL)" using dropped by (rule notify_dropped)
  then show ?thesis unfolding sysL_def .
qed

theorem cooldown_drops_second_witness:
  "sys_enabled example_system \<and>
   snd (resolve_targets (\<lambda>s. s) example_system (example_message (py ''refund'') 0)) = 60 \<and>
   fst (check_cooldown 0 example_system (cooldown_key (example_message (py ''refund'') 0)) 60) \<and>
   usec 40 - 0 < usec 60 \<and>
   notify (\<lambda>s. s) (usec 40)
     (notify_all (\<lambda>s. s) example_system
        [(0, example_message (py ''refund'') 0),
         (usec 20, example_message (py ''complaint'') (usec 20))])
     (example_message (py ''refund'') (usec 40)) =
   (Map.empty, [],
    notify_all (\<lambda>s. s) example_system
        [(0, example_message (py ''refund'') 0),
         (usec 20, example_message (py ''complaint'') (usec 20))])"
proof -
  let ?m1 = "example_message (py ''refund'') 0"
  let ?m2 = "example_message (py ''refund'') (usec 40)"
  let ?between = "[(usec 20, example_message (py ''complaint'') (usec 20))]"
  have en: "sys_enabled example_system" by (simp add: example_system_def)
  have cd: "snd (resolve_targets (\<lambda>s. s) example_system ?m1) = 60"
    by (simp add: example_defs notify_defs)
  have pos: "0 < snd (resolve_targets (\<lambda>s. s) example_system ?m1)" by (simp add: cd)
  have ok60: "fst (check_cooldown 0 example_system (cooldown_key ?m1) 60)"
    by (simp add: example_defs notify_defs)
  then have ok: "fst (check_cooldown 0 example_system (cooldown_key ?m1)
                        (snd (resolve_targets (\<lambda>s. s) example_system ?m1)))"
    by (simp add: cd)
  have key: "cooldown_key ?m2 = cooldown_key ?m1" by (simp add: example_defs notify_defs)
  have c1: "(0::int) \<le> usec 40" by (simp add: usec_def)
  have c2: "\<forall>(t, m)\<in>set ?between. 0 \<le> t" by (simp add: usec_def)
  have mr: "match_rules example_system ?m2 = [refund_rule, urgent_rule]"
    by (simp add: example_defs notify_defs)
  then have m: "match_rules example_system ?m2 \<noteq> []" by simp
  have w: "usec 40 - 0 < usec (Min (cooldown ` set (match_rules example_system ?m2)))"
    unfolding mr by (simp add: example_defs usec_def)
  have w60: "usec 40 - 0 < usec 60" by (simp add: usec_def)
  from cooldown_drops_second[OF en pos ok key c1 c2 m w] en cd ok60 w60
  show ?thesis by blast
qed

subsection \<open>The default channels\<close>

text \<open>
  Claim C6: a notification that no enabled rule matches goes to the configured default
  channels with the cooldown disabled. Whatever the ledger holds and whatever the clock
  reads, \<open>send\<close> is invoked on every default channel that is configured and available, the
  returned dictionary has an entry for every default channel (the value \<open>send\<close> returned, or
  \<open>False\<close> for a channel that is missing, unavailable, timed out or raised), and the ledger
  is left as it was.
\<close>

theorem default_channels_no_cooldown:
  assumes "sys_enabled sys" and "match_rules sys m = []"
  shows "notify iter now (sys\<lparr>cooldown_records := ledger\<rparr>) m =
           ((\<lambda>n. if n \<in> set (default_targets sys)
                  then Some (channel_usable (sys_channels sys) n \<and> send_result (the (sys_channels sys n)) m)
                  else None),
            filter (channel_usable (sys_channels sys)) (default_targets sys),
            sys\<lparr>cooldown_records := ledger\<rparr>)"
proof -
  let ?sys = "sys\<lparr>cooldown_records := ledger\<rparr>"
  have en: "sys_enabled ?sys" using assms(1) by simp
  have "match_rules ?sys m = []" using assms(2) by (simp add: match_rules_def)
  then have rt: "resolve_targets iter ?sys m = (default_targets sys, 0)"
    by (simp add: resolve_targets_none default_targets_def)
  have ok: "fst (check_cooldown now ?sys (cooldown_key m) (snd (resolve_targets iter ?sys m)))"
    by (simp add: rt check_cooldown_def)
  have 1: "fst (notify iter now ?sys m) = (\<lambda>n. if n \<in> set (default_targets sys)
                  then Some (channel_usable (sys_channels sys) n \<and> send_result (the (sys_channels sys n)) m)
                  else None)"
    using notify_results[OF en ok] by (simp add: rt cong: if_cong)
  have 2: "fst (snd (notify iter now ?sys m)) = filter (channel_usable (sys_channels sys)) (default_targets sys)"
    using notify_dispatched(1)[OF en ok] by (simp add: rt)
  have 3: "snd (snd (notify iter now ?sys m)) = ?sys"
    by (simp add: notify_state rt)
  show ?thesis using 1 2 3 by (metis prod.collapse)
qed

theorem default_channels_no_cooldown_witness:
  "sys_enabled example_system \<and>
   match_rules example_system (example_message (py ''delivery'') 5) = [] \<and>
   fst (snd (notify (\<lambda>s. s) 5
      (example_system\<lparr>cooldown_records := [cooldown_key (example_message (py ''delivery'') 5) \<mapsto> 4]\<rparr>)
      (example_message (py ''delivery'') 5))) = [py ''console'', py ''file'']"
proof -
  let ?m = "example_message (py ''delivery'') 5"
  have en: "sys_enabled example_system" by (simp add: example_system_def)
  have mr: "match_rules example_system ?m = []" by (simp add: example_defs notify_defs)
  have f: "filter (channel_usable (sys_channels example_system)) (default_targets example_system) =
             [py ''console'', py ''file'']"
    by (simp add: example_defs default_targets_def channel_usable_def)
  from default_channels_no_cooldown[OF en mr, of "\<lambda>s. s" 5 "[cooldown_key ?m \<mapsto> 4]"]
  show ?thesis using en mr by (simp add: f)
qed

subsection \<open>Writes to the cooldown ledger\<close>

text \<open>
  Claim C10: \<open>notify\<close> changes nothing of the system but the ledger, and it writes the ledger
  entry of the key \<open>keyword:source\<close> exactly when the system is enabled, at least one rule
  matches, the minimum cooldown of the matched rules is positive and the notification is
  not within the cooldown window of the last recorded time. In every other case, among them
  the default-channel path and a notification dropped by the cooldown, the system and its
  ledger are unchanged.
\<close>

theorem ledger_written_only_when_sent:
  "snd (snd (notify iter now sys m)) =
     (if sys_enabled sys \<and> match_rules sys m \<noteq> [] \<and>
         0 < Min (cooldown ` set (match_rules sys m)) \<and>
         (case cooldown_records sys (cooldown_key m) of
            None \<Rightarrow> True
          | Some last_time \<Rightarrow> usec (Min (cooldown ` set (match_rules sys m))) \<le> now - last_time)
      then sys\<lparr>cooldown_records := (cooldown_records sys)(cooldown_key m \<mapsto> now)\<rparr>
      else sys)"
proof (cases "match_rules sys m = []")
  case True
  then show ?thesis by (simp add: notify_state resolve_targets_none)
next
  case False
  define c where "c = Min (cooldown ` set (match_rules sys m))"
  have cd: "snd (resolve_targets iter sys m) = c"
    unfolding c_def using False by (rule resolve_targets_some(2))
  have "snd (snd (notify iter now sys m)) =
     (if sys_enabled sys \<and> match_rules sys m \<noteq> [] \<and> 0 < c \<and>
         (case cooldown_records sys (cooldown_key m) of
            None \<Rightarrow> True
          | Some last_time \<Rightarrow> usec c \<le> now - last_time)
      then sys\<lparr>cooldown_records := (cooldown_records sys)(cooldown_key m \<mapsto> now)\<rparr>
      else sys)"
    using False by (auto simp: notify_state cd check_cooldown_allows)
  then show ?thesis unfolding c_def .
qed

theorem ledger_written_only_when_sent_witness:
  "snd (snd (notify (\<lambda>s. s) 7 example_system (example_message (py ''refund'') 7))) =
     example_system\<lparr>cooldown_records := [cooldown_key (example_message (py ''refund'') 7) \<mapsto> 7]\<rparr> \<and>
   snd (snd (notify (\<lambda>s. s) 7 example_system (example_message (py ''delivery'') 7))) = example_system \<and>
   snd (snd (notify (\<lambda>s. s) 8
      (example_system\<lparr>cooldown_records := [cooldown_key (example_message (py ''refund'') 7) \<mapsto> 7]\<rparr>)
      (example_message (py ''refund'') 8))) =
     example_system\<lparr>cooldown_records := [cooldown_key (example_message (py ''refund'') 7) \<mapsto> 7]\<rparr>"
proof -
  let ?k = "cooldown_key (example_message (py ''refund'') 7)"
  have m1: "match_rules example_system (example_message (py ''refund'') 7) = [refund_rule, urgent_rule]"
    by (simp add: example_defs notify_defs)
  have m2: "match_rules example_system (example_message (py ''delivery'') 7) = []"
    by (simp add: example_defs notify_defs)
  have m3: "match_rules (example_system\<lparr>cooldown_records := [?k \<mapsto> 7]\<rparr>)
              (example_message (py ''refund'') 8) = [refund_rule, urgent_rule]"
    by (simp add: example_defs notify_defs)
  have k: "cooldown_key (example_message (py ''refund'') 8) = ?k"
    by (simp add: example_defs notify_defs)
  have a: "snd (snd (notify (\<lambda>s. s) 7 example_system (example_message (py ''refund'') 7))) =
     example_system\<lparr>cooldown_records := [?k \<mapsto> 7]\<rparr>"
    using ledger_written_only_when_sent[of "\<lambda>s. s" 7 example_system "example_message (py ''refund'') 7"]
    unfolding m1 by (simp add: example_defs usec_def)
  have b: "snd (snd (notify (\<lambda>s. s) 7 example_system (example_message (py ''delivery'') 7))) = example_system"
    using ledger_written_only_when_sent[of "\<lambda>s. s" 7 example_system "example_message (py ''delivery'') 7"]
    unfolding m2 by simp
  have c: "snd (snd (notify (\<lambda>s. s) 8 (example_system\<lparr>cooldown_records := [?k \<mapsto> 7]\<rparr>)
      (example_message (py ''refund'') 8))) = example_system\<lparr>cooldown_records := [?k \<mapsto> 7]\<rparr>"
    using ledger_written_only_when_sent[of "\<lambda>s. s" 8 "example_system\<lparr>cooldown_records := [?k \<mapsto> 7]\<rparr>"
        "example_message (py ''refund'') 8"]
    unfolding m3 k by (simp add: example_defs usec_def)
  show ?thesis using a b c by simp
qed

section \<open>Deduplication of polled messages\<close>

text \<open>
  Claim C4: a message is returned as new exactly when its identity is not in the source's
  cache at the moment it is processed (so the first time it is seen), and it is suppressed
  whenever its identity is in the cache at that moment. Processing one batch after another
  is processing their concatenation. As long as the cache is not trimmed (the identities
  seen so far, each listed once, and the two batches together do not exceed 10000 entries),
  no identity is delivered twice: within a poll and across two polls the delivered
  identities are pairwise different, they are exactly the identities of the batch that were
  not seen before, and the cache afterwards holds everything seen.
\<close>

theorem dedup_admits_first_suppresses_cached:
  fixes iter src pre m batch1 batch2
  defines "before \<equiv> deduplicate_messages iter src pre"
    and "poll1 \<equiv> deduplicate_messages iter src batch1"
  defines "poll2 \<equiv> deduplicate_messages iter (snd poll1) batch2"
  shows "fst (deduplicate_messages iter src (pre @ [m])) =
           (if msg_id m \<in> set (seen_message_ids (snd before)) then fst before else fst before @ [m]) \<and>
         deduplicate_messages iter src (batch1 @ batch2) = (fst poll1 @ fst poll2, snd poll2) \<and>
         (distinct (seen_message_ids src) \<and>
          length (seen_message_ids src) + length batch1 + length batch2 \<le> 10000 \<longrightarrow>
            distinct (map msg_id (fst poll1 @ fst poll2)) \<and>
            set (map msg_id (fst poll1)) = msg_id ` set batch1 - set (seen_message_ids src) \<and>
            set (map msg_id (fst poll2)) =
              msg_id ` set batch2 - (set (seen_message_ids src) \<union> msg_id ` set batch1) \<and>
            set (seen_message_ids (snd poll2)) =
              set (seen_message_ids src) \<union> msg_id ` set batch1 \<union> msg_id ` set batch2)"
proof -
  have a: "fst (deduplicate_messages iter src (pre @ [m])) =
           (if msg_id m \<in> set (seen_message_ids (snd before)) then fst before else fst before @ [m])"
    unfolding before_def by (simp add: deduplicate_messages_append deduplicate_messages_single)
  have b: "deduplicate_messages iter src (batch1 @ batch2) = (fst poll1 @ fst poll2, snd poll2)"
    unfolding poll1_def poll2_def by (rule deduplicate_messages_append)
  have c: "distinct (map msg_id (fst poll1 @ fst poll2)) \<and>
            set (map msg_id (fst poll1)) = msg_id ` set batch1 - set (seen_message_ids src) \<and>
            set (map msg_id (fst poll2)) =
              msg_id ` set batch2 - (set (seen_message_ids src) \<union> msg_id ` set batch1) \<and>
            set (seen_message_ids (snd poll2)) =
              set (seen_message_ids src) \<union> msg_id ` set batch1 \<union> msg_id ` set batch2"
    if d: "distinct (seen_message_ids src)"
      and l: "length (seen_message_ids src) + length batch1 + length batch2 \<le> 10000"
  proof -
    have l1: "length (seen_message_ids src) + length batch1 \<le> 10000" using l by simp
    note p1 = deduplicate_messages_no_trim[OF d l1, of iter, folded poll1_def]
    have l12: "length (seen_message_ids src) + length (batch1 @ batch2) \<le> 10000" using l by simp
    note p12 = deduplicate_messages_no_trim[OF d l12, of iter, unfolded b]
    have s1: "set (seen_message_ids (snd poll1)) = set (seen_message_ids src) \<union> msg_id ` set batch1"
      using p1(1,3) by auto
    have ids: "set (map msg_id (fst poll1 @ fst poll2)) =
                 msg_id ` set (batch1 @ batch2) - set (seen_message_ids src)"
      using p12(3) by simp
    have dis: "distinct (map msg_id (fst poll1 @ fst poll2))" using p12(2) by simp
    have d1: "distinct (seen_message_ids (snd poll1))"
      using d p1(2,3) by (auto simp: p1(1))
    have "length (fst poll1) \<le> length batch1" using p1(4) by (rule list_emb_length)
    then have l2: "length (seen_message_ids (snd poll1)) + length batch2 \<le> 10000"
      using l by (simp add: p1(1))
    note p2 = deduplicate_messages_no_trim[OF d1 l2, of iter, folded poll2_def]
    have "set (map msg_id (fst poll2)) = msg_id ` set batch2 - (set (seen_message_ids src) \<union> msg_id ` set batch1)"
      using p2(3) s1 by simp
    moreover have "set (seen_message_ids (snd poll2)) =
              set (seen_message_ids src) \<union> msg_id ` set batch1 \<union> msg_id ` set batch2"
      using p12(1) ids by auto
    ultimately show ?thesis using dis p1(3) by simp
  qed
  show ?thesis using a b c by blast
qed

theorem dedup_admits_first_suppresses_cached_witness:
  "fst (deduplicate_messages (\<lambda>s. s) fresh_source
          ([numbered_message 1, numbered_message 2] @ [numbered_message 1])) =
     [numbered_message 1, numbered_message 2] \<and>
   distinct (seen_message_ids fresh_source) \<and>
   length (seen_message_ids fresh_source) + length [numbered_message 1, numbered_message 2]
     + length [numbered_message 2, numbered_message 3] \<le> 10000 \<and>
   fst (deduplicate_messages (\<lambda>s. s)
          (snd (deduplicate_messages (\<lambda>s. s) fresh_source [numbered_message 1, numbered_message 2]))
          [numbered_message 2, numbered_message 3]) = [numbered_message 3] \<and>
   distinct (map msg_id
     (fst (deduplicate_messages (\<lambda>s. s) fresh_source [numbered_message 1, numbered_message 2]) @
      fst (deduplicate_messages (\<lambda>s. s)
          (snd (deduplicate_messages (\<lambda>s. s) fresh_source [numbered_message 1, numbered_message 2]))
          [numbered_message 2, numbered_message 3])))"
proof -
  let ?b1 = "[numbered_message 1, numbered_message 2]"
  let ?b2 = "[numbered_message 2, numbered_message 3]"
  have p1: "deduplicate_messages (\<lambda>s. s) fresh_source ?b1 =
              (?b1, fresh_source\<lparr>seen_message_ids := [numbered_id 1, numbered_id 2]\<rparr>)"
    by (simp add: dedup_eval)
  have in_cache: "msg_id (numbered_message 1) \<in>
          set (seen_message_ids (snd (deduplicate_messages (\<lambda>s. s) fresh_source ?b1)))"
    unfolding p1 by (simp add: numbered_message_def)
  have h: "distinct (seen_message_ids fresh_source) \<and>
           length (seen_message_ids fresh_source) + length ?b1 + length ?b2 \<le> 10000"
    by (simp add: fresh_source_def)
  have p2: "fst (deduplicate_messages (\<lambda>s. s)
          (snd (deduplicate_messages (\<lambda>s. s) fresh_source ?b1)) ?b2) = [numbered_message 3]"
    unfolding p1 by (simp add: dedup_eval)
  note th = dedup_admits_first_suppresses_cached[where iter = "\<lambda>s. s" and src = fresh_source
      and pre = ?b1 and m = "numbered_message 1" and ?batch1.0 = ?b1 and ?batch2.0 = ?b2]
  from th in_cache
  have first: "fst (deduplicate_messages (\<lambda>s. s) fresh_source (?b1 @ [numbered_message 1])) =
          fst (deduplicate_messages (\<lambda>s. s) fresh_source ?b1)"
    by simp
  from th h
  have once: "distinct (map msg_id
     (fst (deduplicate_messages (\<lambda>s. s) fresh_source ?b1) @
      fst (deduplicate_messages (\<lambda>s. s) (snd (deduplicate_messages (\<lambda>s. s) fresh_source ?b1)) ?b2)))"
    by blast
  have c1: "fst (deduplicate_messages (\<lambda>s. s) fresh_source (?b1 @ [numbered_message 1])) = ?b1"
    using first by (simp only: p1 fst_conv)
  show ?thesis using c1 h p2 once by blast
qed

text \<open>
  Claim C5 says that a cache of more than 10000 entries is trimmed to the 8000 most recent
  ones. The size is as stated (lemmas \<open>deduplicate_messages_bounded\<close> and
  \<open>deduplicate_messages_trim_size\<close>: never more than 10000 entries after a message, 8000 right
  after a trim), and \<open>trim_seen_insertion_order\<close> shows that the oldest 2001 entries go when
  \<open>list(seen)\<close> enumerates the set in insertion order. But the cache is a Python set, whose
  enumeration follows the hash table, not the insertion order, so which 8000 entries stay is
  arbitrary. Adding message 10000 to the full cache keeps the identities 2001 to 10000 under
  the insertion-order enumeration; under the enumeration \<open>rev\<close> (one that \<open>set_iteration\<close>
  admits, lemma \<open>set_iteration_rev\<close>) it keeps the 8000 oldest identities and evicts the
  newest 2001, among them the identity just added, so that the same message, polled again,
  is delivered a second time.
\<close>

theorem trim_evicts_newest_under_other_order:
  "length (seen_message_ids full_source) = 10000 \<and>
   deduplicate_messages (\<lambda>s. s) full_source [numbered_message 10000] =
     ([numbered_message 10000], full_source\<lparr>seen_message_ids := map numbered_id [2001..<10001]\<rparr>) \<and>
   deduplicate_messages rev full_source [numbered_message 10000] =
     ([numbered_message 10000], full_source\<lparr>seen_message_ids := rev (map numbered_id [0..<8000])\<rparr>) \<and>
   numbered_id 0 \<in> set (rev (map numbered_id [0..<8000])) \<and>
   numbered_id 10000 \<notin> set (rev (map numbered_id [0..<8000])) \<and>
   fst (deduplicate_messages rev full_source [numbered_message 10000, numbered_message 10000]) =
     [numbered_message 10000, numbered_message 10000]"
proof -
  let ?m = "numbered_message 10000"
  have id: "msg_id ?m = numbered_id 10000" by (simp add: numbered_message_def)
  have seen: "seen_message_ids full_source = map numbered_id [0..<10000]"
    by (simp add: full_source_def fresh_source_def)
  have fresh: "numbered_id 10000 \<notin> set (map numbered_id [0..<10000])"
    by (simp only: numbered_id_mem) simp
  have add: "set_add (numbered_id 10000) (map numbered_id [0..<10000]) =
               map numbered_id [0..<10000] @ [numbered_id 10000]"
    using fresh by (rule set_add_fresh)
  have one: "deduplicate_messages rev full_source [?m] =
     ([?m], full_source\<lparr>seen_message_ids := rev (map numbered_id [0..<8000])\<rparr>)"
    using fresh by (simp only: deduplicate_messages_single id seen add trim_seen_rev_full if_False)
  have ins: "deduplicate_messages (\<lambda>s. s) full_source [?m] =
     ([?m], full_source\<lparr>seen_message_ids := map numbered_id [2001..<10001]\<rparr>)"
    using fresh by (simp only: deduplicate_messages_single id seen add trim_seen_insertion_full if_False)
  have gone: "numbered_id 10000 \<notin> set (rev (map numbered_id [0..<8000]))"
    by (simp only: set_rev numbered_id_mem) simp
  have kept: "numbered_id 0 \<in> set (rev (map numbered_id [0..<8000]))"
    by (simp only: set_rev numbered_id_mem) simp
  have "deduplicate_messages rev (full_source\<lparr>seen_message_ids := rev (map numbered_id [0..<8000])\<rparr>) [?m] =
          ([?m], full_source\<lparr>seen_message_ids :=
             trim_seen rev (set_add (numbered_id 10000) (rev (map numbered_id [0..<8000])))\<rparr>)"
    using gone by (simp add: deduplicate_messages_single id)
  then have two: "fst (deduplicate_messages rev full_source [?m, ?m]) = [?m, ?m]"
    using deduplicate_messages_append[of rev full_source "[?m]" "[?m]"] one by simp
  have len: "length (seen_message_ids full_source) = 10000" by (simp add: seen)
  show ?thesis using len ins one kept gone two by (intro conjI)
qed

section \<open>Keyword matching\<close>

text \<open>
  Claim C9: for every keyword list, match mode and case setting, \<open>check\<close> returns \<open>None\<close> for
  a missing or empty text; for any other text it returns the first keyword of the list, in
  list order, that matches the text, where a keyword matches as the mode says
  (\<open>keyword_matches\<close>), however many later keywords match as well. The same holds for the filter
  of monitor_v2.py, whose list holds the configured keywords lower-cased unless the filter is
  case sensitive: it returns the stored form of the first configured keyword that is a
  substring of the text.
\<close>

theorem check_returns_first_match:
  "check lower ratio f None = None \<and> check lower ratio f (Some []) = None \<and>
   check_v2 lower g None = None \<and> check_v2 lower g (Some []) = None \<and>
   (text \<noteq> [] \<longrightarrow>
      check lower ratio f (Some text) = List.find (keyword_matches lower ratio f text) (kf_keywords f) \<and>
      (check lower ratio f (Some text) = Some k \<longleftrightarrow>
         (\<exists>pre post. kf_keywords f = pre @ k # post \<and> keyword_matches lower ratio f text k \<and>
                     (\<forall>k'\<in>set pre. \<not> keyword_matches lower ratio f text k'))) \<and>
      check_v2 lower g (Some text) =
        List.find (\<lambda>kw. str_in kw (if v2_case_sensitive g then text else lower text)) (v2_keywords g) \<and>
      check_v2 lower (KeywordFilter_v2_init lower kws cs) (Some text) =
        (if cs then List.find (\<lambda>kw. str_in kw text) kws
         else map_option lower (List.find (\<lambda>kw. str_in (lower kw) (lower text)) kws)))"
proof -
  have a: "check lower ratio f None = None \<and> check lower ratio f (Some []) = None \<and>
           check_v2 lower g None = None \<and> check_v2 lower g (Some []) = None"
    by (simp add: check_def check_v2_def)
  have b: "check lower ratio f (Some text) = List.find (keyword_matches lower ratio f text) (kf_keywords f) \<and>
      (check lower ratio f (Some text) = Some k \<longleftrightarrow>
         (\<exists>pre post. kf_keywords f = pre @ k # post \<and> keyword_matches lower ratio f text k \<and>
                     (\<forall>k'\<in>set pre. \<not> keyword_matches lower ratio f text k'))) \<and>
      check_v2 lower g (Some text) =
        List.find (\<lambda>kw. str_in kw (if v2_case_sensitive g then text else lower text)) (v2_keywords g) \<and>
      check_v2 lower (KeywordFilter_v2_init lower kws cs) (Some text) =
        (if cs then List.find (\<lambda>kw. str_in kw text) kws
         else map_option lower (List.find (\<lambda>kw. str_in (lower kw) (lower text)) kws))"
    if t: "text \<noteq> []"
  proof -
    have 1: "check lower ratio f (Some text) = List.find (keyword_matches lower ratio f text) (kf_keywords f)"
      using t by (rule check_find)
    have 2: "check lower ratio f (Some text) = Some k \<longleftrightarrow>
         (\<exists>pre post. kf_keywords f = pre @ k # post \<and> keyword_matches lower ratio f text k \<and>
                     (\<forall>k'\<in>set pre. \<not> keyword_matches lower ratio f text k'))"
      unfolding 1 by (rule find_first_iff)
    have 3: "check_v2 lower g (Some text) =
        List.find (\<lambda>kw. str_in kw (if v2_case_sensitive g then text else lower text)) (v2_keywords g)"
      using t by (rule check_v2_find)
    have 4: "check_v2 lower (KeywordFilter_v2_init lower kws cs) (Some text) =
        (if cs then List.find (\<lambda>kw. str_in kw text) kws
         else map_option lower (List.find (\<lambda>kw. str_in (lower kw) (lower text)) kws))"
      using t by (simp add: check_v2_find KeywordFilter_v2_init_def find_map_lower)
    show ?thesis using 1 2 3 4 by blast
  qed
  show ?thesis using a b by blast
qed

theorem check_returns_first_match_witness:
  "py ''I want a REFUND'' \<noteq> [] \<and>
   check ascii_lower (\<lambda>a b. 0) refund_filter (Some (py ''I want a REFUND'')) = Some (py ''Refund'') \<and>
   List.find (keyword_matches ascii_lower (\<lambda>a b. 0) refund_filter (py ''I want a REFUND''))
     (kf_keywords refund_filter) = Some (py ''Refund'') \<and>
   keyword_matches ascii_lower (\<lambda>a b. 0) refund_filter (py ''I want a REFUND'') (py ''fund'') \<and>
   check ascii_lower (\<lambda>a b. 0) refund_filter (Some [25105, 35201, 36864, 32, 27445]) =
     Some [36864, 27454] \<and>
   check_v2 ascii_lower
     (KeywordFilter_v2_init ascii_lower [py ''complaint'', py ''Refund'', py ''fund''] False)
     (Some (py ''I want a REFUND'')) = Some (py ''refund'')"
proof -
  let ?t = "py ''I want a REFUND''"
  let ?kws = "[py ''complaint'', py ''Refund'', py ''fund'']"
  have t: "?t \<noteq> []" by (simp add: py_def)
  have c: "check ascii_lower (\<lambda>a b. 0) refund_filter (Some ?t) = Some (py ''Refund'')"
    by (simp add: filter_eval)
  note first = check_returns_first_match[of ascii_lower "\<lambda>a b. 0" refund_filter
      "KeywordFilter_v2_init ascii_lower ?kws False" ?t "py ''Refund''" ?kws False]
  from first t
  have "check ascii_lower (\<lambda>a b. 0) refund_filter (Some ?t) =
          List.find (keyword_matches ascii_lower (\<lambda>a b. 0) refund_filter ?t) (kf_keywords refund_filter)"
    by blast
  then have f: "List.find (keyword_matches ascii_lower (\<lambda>a b. 0) refund_filter ?t)
                  (kf_keywords refund_filter) = Some (py ''Refund'')"
    using c by simp
  have m: "keyword_matches ascii_lower (\<lambda>a b. 0) refund_filter ?t (py ''fund'')"
    by (simp add: filter_eval)
  have o: "check ascii_lower (\<lambda>a b. 0) refund_filter (Some [25105, 35201, 36864, 32, 27445]) =
             Some [36864, 27454]"
    by (simp add: filter_eval)
  from first t
  have "check_v2 ascii_lower (KeywordFilter_v2_init ascii_lower ?kws False) (Some ?t) =
          (if False then List.find (\<lambda>kw. str_in kw ?t) ?kws
           else map_option ascii_lower
             (List.find (\<lambda>kw. str_in (ascii_lower kw) (ascii_lower ?t)) ?kws))"
    by blast
  then have v: "check_v2 ascii_lower (KeywordFilter_v2_init ascii_lower ?kws False) (Some ?t) =
                  Some (py ''refund'')"
    by (simp add: ascii_lower_def py_def)
  show ?thesis using t c f m o v by simp
qed

section \<open>The polling loop\<close>






end
